theory Spec2Isabelle
  imports Main "HOL-Library.Sublist"
begin

section \<open>Data model of the chat server\<close>

text \<open>
  The server keeps three pieces of shared state: the session map
  (\<^verbatim>\<open>sessions\<close>, token to session), the connection map (\<^verbatim>\<open>clients\<close>,
  connection handle to user name) and the broadcast channel. The directory
  service (redis-proxy) keeps the user records in a key-value store.

  Instants are integers counting nanoseconds, as \<^verbatim>\<open>time.Time\<close> and
  \<^verbatim>\<open>time.Duration\<close> do; strings are byte sequences, so \<^term>\<open>length\<close> is what
  Go's \<^verbatim>\<open>len\<close> returns.
\<close>

type_synonym time = int

record Session =
  Session_Username :: string
  ExpiresAt :: time

type_synonym sessions = "string \<rightharpoonup> Session"

text \<open>\<^verbatim>\<open>time.Hour\<close>, and the constant \<^verbatim>\<open>24 * time.Hour\<close> both handlers add to the clock.\<close>

definition Hour :: time where
  "Hour = 3600 * 1000000000"

definition TTL :: time where
  "TTL = 24 * Hour"

subsection \<open>Session lookup: getCurrentUser\<close>

text \<open>
  \<^verbatim>\<open>getCurrentUser\<close> reads the clock twice: once for the expiry test
  (\<open>now1\<close>) and once for the new expiry (\<open>now2\<close>). The request is
  represented by the value of its \<^verbatim>\<open>session_id\<close> cookie, \<^term>\<open>None\<close> when
  \<^verbatim>\<open>r.Cookie\<close> returns an error. The result is the pair the Go function returns,
  together with the session map after the call.
\<close>

definition getCurrentUser ::
  "time \<Rightarrow> time \<Rightarrow> string option \<Rightarrow> sessions \<Rightarrow> (string \<times> bool) \<times> sessions" where
  "getCurrentUser now1 now2 cookie ss =
     (case cookie of
        None \<Rightarrow> (('''', False), ss)
      | Some v \<Rightarrow>
          (case ss v of
             None \<Rightarrow> (('''', False), ss)
           | Some session \<Rightarrow>
               if now1 > ExpiresAt session then (('''', False), ss)
               else
                 (let session' = session\<lparr>ExpiresAt := now2 + TTL\<rparr>
                  in ((Session_Username session', True), ss(v \<mapsto> session')))))"

text \<open>
  A run of lookups of one token, each with its two clock readings; the results are
  collected in call order.
\<close>

fun getCurrentUser_repeat ::
  "(time \<times> time) list \<Rightarrow> string \<Rightarrow> sessions \<Rightarrow> (string \<times> bool) list \<times> sessions" where
  "getCurrentUser_repeat [] v ss = ([], ss)"
| "getCurrentUser_repeat ((now1, now2) # ts) v ss =
     (let (r, ss1) = getCurrentUser now1 now2 (Some v) ss;
          (rs, ss2) = getCurrentUser_repeat ts v ss1
      in (r # rs, ss2))"

text \<open>
  The clock readings of a run of lookups come "before TTL elapse" when the first
  test reading is not after the expiry \<open>e\<close> in force, and each later test reading is
  not after the expiry the previous lookup wrote.
\<close>

fun within_ttl :: "time \<Rightarrow> (time \<times> time) list \<Rightarrow> bool" where
  "within_ttl e [] = True"
| "within_ttl e ((now1, now2) # ts) = (now1 \<le> e \<and> within_ttl (now2 + TTL) ts)"

subsection \<open>Logout\<close>

record Cookie =
  Name :: string
  Value :: string
  Expires :: time
  HttpOnly :: bool
  Path :: string

record Response =
  StatusCode :: nat
  SetCookie :: "Cookie option"
  Body :: string

text \<open>
  \<^verbatim>\<open>logoutHandler\<close> never calls \<^verbatim>\<open>WriteHeader\<close>, so the first \<^verbatim>\<open>Write\<close> sends
  status 200. \<^verbatim>\<open>time.Unix(0, 0)\<close> is instant 0. The body is kept abstract
  (\<open>logout_body\<close> stands for the JSON text the handler writes).
\<close>

definition logoutHandler ::
  "string \<Rightarrow> string option \<Rightarrow> sessions \<Rightarrow> Response \<times> sessions" where
  "logoutHandler logout_body cookie ss =
     (let ss' = (case cookie of None \<Rightarrow> ss | Some v \<Rightarrow> ss(v := None))
      in (\<lparr>StatusCode = 200,
           SetCookie = Some \<lparr>Name = ''session_id'', Value = '''', Expires = 0,
                              HttpOnly = True, Path = ''/''\<rparr>,
           Body = logout_body\<rparr>, ss'))"

text \<open>A session map used in the examples: one session of \<open>alice\<close> that expires at instant 100.\<close>

definition alice_session :: Session where
  "alice_session = \<lparr>Session_Username = ''alice'', ExpiresAt = 100\<rparr>"

definition sessions_ex :: sessions where
  "sessions_ex = Map.empty(''tok'' \<mapsto> alice_session)"

subsection \<open>Directory service: the redis-proxy\<close>

text \<open>
  The credential store is a Redis server reached through a client library. It is
  modelled by its key-value map together with the list of commands issued to it, so
  that "no store operation" can be stated. A reading call (\<^verbatim>\<open>Exists\<close>, \<^verbatim>\<open>Get\<close>) takes
  a flag saying whether the remote call errs; a writing call takes its outcome.
\<close>

datatype cmd = EXISTS string | SET string string | GET string

record redis =
  kv :: "string \<rightharpoonup> string"
  calls :: "cmd list"

text \<open>\<^verbatim>\<open>rdb.Exists(ctx, k).Result()\<close>: the number of keys found, or an error (\<^term>\<open>None\<close>).\<close>

definition rdb_Exists :: "bool \<Rightarrow> string \<Rightarrow> redis \<Rightarrow> nat option \<times> redis" where
  "rdb_Exists fails k r =
     (if fails then None else Some (if kv r k = None then 0 else 1),
      r\<lparr>calls := calls r @ [EXISTS k]\<rparr>)"

text \<open>
  \<^verbatim>\<open>rdb.Set(ctx, k, v, 0).Err()\<close>: the flag returned says whether the call erred. The
  client can get an error although the server applied the write (a reply that is lost
  or comes too late), so an erring call may or may not have changed the store.
\<close>

datatype set_outcome = Set_ok | Set_error_not_applied | Set_error_applied

definition rdb_Set :: "set_outcome \<Rightarrow> string \<Rightarrow> string \<Rightarrow> redis \<Rightarrow> bool \<times> redis" where
  "rdb_Set outcome k v r =
     (case outcome of
        Set_ok \<Rightarrow> (False, r\<lparr>kv := (kv r)(k \<mapsto> v), calls := calls r @ [SET k v]\<rparr>)
      | Set_error_not_applied \<Rightarrow> (True, r\<lparr>calls := calls r @ [SET k v]\<rparr>)
      | Set_error_applied \<Rightarrow>
          (True, r\<lparr>kv := (kv r)(k \<mapsto> v), calls := calls r @ [SET k v]\<rparr>))"

text \<open>\<^verbatim>\<open>rdb.Get(ctx, k).Result()\<close>: \<^verbatim>\<open>redis.Nil\<close> for a missing key, another error, or the value.\<close>

datatype get_result = redis_Nil | redis_Err | redis_Val string

definition rdb_Get :: "bool \<Rightarrow> string \<Rightarrow> redis \<Rightarrow> get_result \<times> redis" where
  "rdb_Get fails k r =
     (if fails then redis_Err
      else (case kv r k of None \<Rightarrow> redis_Nil | Some v \<Rightarrow> redis_Val v),
      r\<lparr>calls := calls r @ [GET k]\<rparr>)"

text \<open>\<^verbatim>\<open>pb.User\<close>, the request payload of both remote procedures.\<close>

record User =
  User_Username :: string
  Password :: string

text \<open>
  \<^verbatim>\<open>pb.RegisterResponse\<close> and \<^verbatim>\<open>pb.LoginResponse\<close> have the same two fields. The
  message texts of the source are named by constructors: \<open>Redis_error\<close> (redis error),
  \<open>Username_exists\<close> (user name already exists), \<open>Register_failed\<close>, \<open>Register_ok\<close>,
  \<open>Username_unknown\<close> (no such user name), \<open>Password_wrong\<close>, \<open>Login_ok\<close>.
\<close>

datatype reply_text =
    Redis_error | Username_exists | Register_failed | Register_ok
  | Username_unknown | Password_wrong | Login_ok

record Reply =
  Success :: bool
  Text :: reply_text

text \<open>
  \<^verbatim>\<open>Register\<close> makes two remote calls. \<open>Register_exists\<close> is the function up to and
  including the existence test (it yields the early return, or \<^term>\<open>None\<close> to go
  on); \<open>Register_set\<close> is the rest. A Go result \<^verbatim>\<open>(resp, err)\<close> is a pair of the
  reply and a flag that is true when \<^verbatim>\<open>err\<close> is not nil.
\<close>

definition Register_exists :: "bool \<Rightarrow> User \<Rightarrow> redis \<Rightarrow> (Reply \<times> bool) option \<times> redis" where
  "Register_exists e req r =
     (let username = User_Username req;
          (exists, r1) = rdb_Exists e (''user:'' @ username) r
      in case exists of
           None \<Rightarrow> (Some (\<lparr>Success = False, Text = Redis_error\<rparr>, True), r1)
         | Some n \<Rightarrow>
             if n > 0 then (Some (\<lparr>Success = False, Text = Username_exists\<rparr>, False), r1)
             else (None, r1))"

definition Register_set :: "set_outcome \<Rightarrow> User \<Rightarrow> redis \<Rightarrow> (Reply \<times> bool) \<times> redis" where
  "Register_set e req r =
     (let username = User_Username req; password = Password req;
          (err, r1) = rdb_Set e (''user:'' @ username) password r
      in if err then ((\<lparr>Success = False, Text = Register_failed\<rparr>, True), r1)
         else ((\<lparr>Success = True, Text = Register_ok\<rparr>, False), r1))"

definition Register :: "bool \<Rightarrow> set_outcome \<Rightarrow> User \<Rightarrow> redis \<Rightarrow> (Reply \<times> bool) \<times> redis" where
  "Register e1 e2 req r =
     (case Register_exists e1 req r of
        (Some ret, r1) \<Rightarrow> (ret, r1)
      | (None, r1) \<Rightarrow> Register_set e2 req r1)"

definition Login :: "bool \<Rightarrow> User \<Rightarrow> redis \<Rightarrow> (Reply \<times> bool) \<times> redis" where
  "Login e req r =
     (let username = User_Username req; password = Password req;
          (res, r1) = rdb_Get e (''user:'' @ username) r
      in case res of
           redis_Nil \<Rightarrow> ((\<lparr>Success = False, Text = Username_unknown\<rparr>, False), r1)
         | redis_Err \<Rightarrow> ((\<lparr>Success = False, Text = Redis_error\<rparr>, True), r1)
         | redis_Val storedPassword \<Rightarrow>
             if storedPassword \<noteq> password
             then ((\<lparr>Success = False, Text = Password_wrong\<rparr>, False), r1)
             else ((\<lparr>Success = True, Text = Login_ok\<rparr>, False), r1))"

text \<open>
  The operations of the directory service, each run from its first line to its
  return, one after the other.
\<close>

datatype rpc = Register_rpc bool set_outcome User | Login_rpc bool User

fun serve :: "rpc \<Rightarrow> redis \<Rightarrow> redis" where
  "serve (Register_rpc e1 e2 req) r = snd (Register e1 e2 req r)"
| "serve (Login_rpc e req) r = snd (Login e req r)"

fun serve_all :: "rpc list \<Rightarrow> redis \<Rightarrow> redis" where
  "serve_all [] r = r"
| "serve_all (c # cs) r = serve_all cs (serve c r)"

subsection \<open>The HTTP register handler\<close>

text \<open>
  \<open>Decode\<close> stands for \<^verbatim>\<open>json.NewDecoder(r.Body).Decode(&req)\<close>: the decoded request,
  or \<^term>\<open>None\<close> when decoding fails. \<open>rpc_fails\<close> says that the remote procedure
  call itself errs before reaching the service. The result is the HTTP status
  (200 when the handler never calls \<^verbatim>\<open>WriteHeader\<close>) and the store afterwards.
\<close>

definition registerHandler ::
  "(string \<Rightarrow> User option) \<Rightarrow> bool \<Rightarrow> bool \<Rightarrow> set_outcome \<Rightarrow> string \<Rightarrow> redis \<Rightarrow>
   nat \<times> redis" where
  "registerHandler Decode rpc_fails e1 e2 body r =
     (case Decode body of
        None \<Rightarrow> (400, r)
      | Some req \<Rightarrow>
          if User_Username req = '''' \<or> Password req = '''' \<or> length (Password req) < 6
          then (400, r)
          else if rpc_fails then (500, r)
          else
            (let ((resp, err), r1) = Register e1 e2 req r
             in if err then (500, r1)
                else if \<not> Success resp then (409, r1)
                else (200, r1)))"

text \<open>
  The older handler of \<^verbatim>\<open>server/main.go\<close> keeps the users in a map of the server
  itself and tests and sets it under the mutex.
\<close>

definition registerHandler_users ::
  "(string \<Rightarrow> User option) \<Rightarrow> string \<Rightarrow> (string \<rightharpoonup> User) \<Rightarrow> nat \<times> (string \<rightharpoonup> User)" where
  "registerHandler_users Decode body users =
     (case Decode body of
        None \<Rightarrow> (400, users)
      | Some req \<Rightarrow>
          if User_Username req = '''' \<or> Password req = '''' \<or> length (Password req) < 6
          then (400, users)
          else if users (User_Username req) \<noteq> None then (409, users)
          else (200, users(User_Username req \<mapsto> req)))"

text \<open>Examples: two registrations of the name \<open>alice\<close>, an empty store, a decoder.\<close>

definition alice1 :: User where
  "alice1 = \<lparr>User_Username = ''alice'', Password = ''secret1''\<rparr>"

definition alice2 :: User where
  "alice2 = \<lparr>User_Username = ''alice'', Password = ''other12''\<rparr>"

definition redis0 :: redis where
  "redis0 = \<lparr>kv = Map.empty, calls = []\<rparr>"

definition redis_alice :: redis where
  "redis_alice = \<lparr>kv = Map.empty(''user:alice'' \<mapsto> ''secret1''), calls = []\<rparr>"

text \<open>
  The number of characters of a well-formed UTF-8 string, which is what the claim on the
  password length counts: the bytes that are not continuation bytes (\<open>0x80\<close> to
  \<open>0xBF\<close>). \<open>pw_eee\<close> is the UTF-8 encoding of three letters e with acute accent.
\<close>

definition utf8_length :: "string \<Rightarrow> nat" where
  "utf8_length s =
     length (filter (\<lambda>c. \<not> (128 \<le> (of_char c :: nat) \<and> (of_char c :: nat) < 192)) s)"

definition pw_eee :: string where
  "pw_eee = [CHR 0xC3, CHR 0xA9, CHR 0xC3, CHR 0xA9, CHR 0xC3, CHR 0xA9]"

definition Decode_ex :: "string \<Rightarrow> User option" where
  "Decode_ex body =
     (if body = ''a1'' then Some alice1
      else if body = ''short'' then Some \<lparr>User_Username = ''bob'', Password = ''12345''\<rparr>
      else if body = ''eee'' then Some \<lparr>User_Username = ''bob'', Password = pw_eee\<rparr>
      else None)"

text \<open>
  Two registrations of \<open>alice\<close> that overlap on an empty store: both run their
  existence test (lines 28 to 34) before either runs its \<^verbatim>\<open>Set\<close> (lines 37 to 42).
\<close>

definition overlap1 :: redis where
  "overlap1 = snd (Register_exists False alice1 redis0)"

definition overlap2 :: redis where
  "overlap2 = snd (Register_exists False alice2 overlap1)"

definition overlap3 :: redis where
  "overlap3 = snd (Register_set Set_ok alice1 overlap2)"

definition overlap4 :: redis where
  "overlap4 = snd (Register_set Set_ok alice2 overlap3)"

subsection \<open>The HTTP login handler and the requests that touch the session map\<close>

text \<open>
  \<^verbatim>\<open>loginHandler\<close>: \<open>sessionID\<close> is the value \<^verbatim>\<open>generateSessionID()\<close> returns, \<open>now1\<close>
  and \<open>now2\<close> are the clock readings for the session and for the cookie. The result
  is the HTTP status with the cookie set (the body is left out), the store and the
  session map afterwards.
\<close>

definition loginHandler ::
  "(string \<Rightarrow> User option) \<Rightarrow> bool \<Rightarrow> bool \<Rightarrow> string \<Rightarrow> time \<Rightarrow> time \<Rightarrow> string \<Rightarrow> redis \<Rightarrow>
   sessions \<Rightarrow> (nat \<times> Cookie option) \<times> redis \<times> sessions" where
  "loginHandler Decode rpc_fails e sessionID now1 now2 body r ss =
     (case Decode body of
        None \<Rightarrow> ((400, None), r, ss)
      | Some req \<Rightarrow>
          if rpc_fails then ((500, None), r, ss)
          else
            (let ((resp, err), r1) = Login e req r
             in if err then ((500, None), r1, ss)
                else if Success resp
                then ((200, Some \<lparr>Name = ''session_id'', Value = sessionID,
                                    Expires = now2 + TTL, HttpOnly = True, Path = ''/''\<rparr>),
                      r1,
                      ss(sessionID \<mapsto>
                           \<lparr>Session_Username = User_Username req, ExpiresAt = now1 + TTL\<rparr>))
                else ((401, None), r1, ss)))"

text \<open>
  The requests whose handlers read or write the session map: login, the lookups made by
  \<^verbatim>\<open>checkLoginHandler\<close> and \<^verbatim>\<open>websocketHandler\<close> through \<^verbatim>\<open>getCurrentUser\<close>, and
  logout. Each handler holds the mutex while it touches the map, so the requests act on
  the map one after the other.
\<close>

datatype session_request =
    Login_request bool bool string time time string
  | Lookup_request time time "string option"
  | Logout_request "string option"

fun handle ::
  "(string \<Rightarrow> User option) \<Rightarrow> session_request \<Rightarrow> redis \<times> sessions \<Rightarrow> redis \<times> sessions" where
  "handle D (Login_request rpc_fails e sessionID now1 now2 body) (r, ss) =
     snd (loginHandler D rpc_fails e sessionID now1 now2 body r ss)"
| "handle D (Lookup_request now1 now2 cookie) (r, ss) =
     (r, snd (getCurrentUser now1 now2 cookie ss))"
| "handle D (Logout_request cookie) (r, ss) = (r, snd (logoutHandler [] cookie ss))"

fun handle_all ::
  "(string \<Rightarrow> User option) \<Rightarrow> session_request list \<Rightarrow> redis \<times> sessions \<Rightarrow> redis \<times> sessions" where
  "handle_all D [] st = st"
| "handle_all D (q # qs) st = handle_all D qs (handle D q st)"

text \<open>A run of requests that never logs the token \<open>tok\<close> out.\<close>

definition requests_ex :: "session_request list" where
  "requests_ex =
     [Lookup_request 200 210 (Some ''tok''), Lookup_request 200 210 (Some ''nope''),
      Lookup_request 200 210 None, Logout_request (Some ''nope''), Logout_request None,
      Login_request False False ''sid'' 300 310 ''a1'']"

subsection \<open>The hub: connection map, broadcast channel, read loop\<close>

text \<open>
  A connection handle (\<^verbatim>\<open>*websocket.Conn\<close>) is a number. The hub state holds the
  connection map \<^verbatim>\<open>clients\<close>, the messages sent on the \<^verbatim>\<open>broadcast\<close> channel
  and not yet received (in the order the sends are served), the dispatcher's
  loop variable \<^verbatim>\<open>msg\<close> (\<^term>\<open>None\<close> while it waits at \<^verbatim>\<open>range broadcast\<close>),
  the handles \<^verbatim>\<open>upgrader.Upgrade\<close> has returned so far, and the handles on which
  \<^verbatim>\<open>Close\<close> was called. Three fields only record history: \<open>written\<close> lists every
  \<^verbatim>\<open>WriteMessage\<close> call in time order as (number of the event, handle, data),
  \<open>enqueued\<close> lists every message ever sent on the channel, and \<open>received\<close> counts
  the messages the dispatcher has finished with, so that the event the dispatcher holds
  has number \<open>received\<close>.
\<close>

type_synonym conn = nat

record Message =
  Type :: string
  Username :: string
  Content :: string

record hub =
  clients :: "conn \<rightharpoonup> string"
  broadcast :: "Message list"
  msg :: "Message option"
  upgraded :: "conn set"
  closed :: "conn set"
  written :: "(nat \<times> conn \<times> string) list"
  enqueued :: "Message list"
  received :: nat

definition hub0 :: hub where
  "hub0 = \<lparr>clients = Map.empty, broadcast = [], msg = None, upgraded = {}, closed = {},
            written = [], enqueued = [], received = 0\<rparr>"

text \<open>
  The critical sections and channel sends of \<^verbatim>\<open>websocketHandler\<close>:
  \<^verbatim>\<open>clients[conn] = username\<close> on a handle just returned by \<^verbatim>\<open>Upgrade\<close>,
  \<^verbatim>\<open>broadcast <- m\<close>, \<^verbatim>\<open>delete(clients, conn)\<close>, and the deferred \<^verbatim>\<open>conn.Close()\<close>.
\<close>

definition join :: "conn \<Rightarrow> string \<Rightarrow> hub \<Rightarrow> hub" where
  "join c username h =
     h\<lparr>clients := (clients h)(c \<mapsto> username), upgraded := insert c (upgraded h)\<rparr>"

definition send :: "Message \<Rightarrow> hub \<Rightarrow> hub" where
  "send m h = h\<lparr>broadcast := broadcast h @ [m], enqueued := enqueued h @ [m]\<rparr>"

definition leave :: "conn \<Rightarrow> hub \<Rightarrow> hub" where
  "leave c h = h\<lparr>clients := (clients h)(c := None)\<rparr>"

definition close :: "conn \<Rightarrow> hub \<Rightarrow> hub" where
  "close c h = h\<lparr>closed := insert c (closed h)\<rparr>"

text \<open>
  The read loop of \<^verbatim>\<open>websocketHandler\<close>, run over the results of its successive
  \<^verbatim>\<open>conn.ReadMessage()\<close> calls. \<open>Unmarshal\<close> stands for \<^verbatim>\<open>json.Unmarshal\<close> into a
  fresh \<^verbatim>\<open>Message\<close> (\<^term>\<open>None\<close> when it returns an error). The flag returned says
  whether the loop was left by \<^verbatim>\<open>break\<close>; it is false when the results run out and
  the handler is still reading.
\<close>

datatype frame = ReadError | Payload string

fun readLoop :: "(string \<Rightarrow> Message option) \<Rightarrow> string \<Rightarrow> frame list \<Rightarrow> hub \<Rightarrow> hub \<times> bool" where
  "readLoop Unmarshal username [] h = (h, False)"
| "readLoop Unmarshal username (ReadError # fs) h = (h, True)"
| "readLoop Unmarshal username (Payload p # fs) h =
     (case Unmarshal p of
        None \<Rightarrow> readLoop Unmarshal username fs h
      | Some message \<Rightarrow>
          readLoop Unmarshal username fs (send (message\<lparr>Username := username\<rparr>) h))"

text \<open>
  \<^verbatim>\<open>websocketHandler\<close> from the successful upgrade on, run without any other
  goroutine in between: \<open>username\<close> is what \<^verbatim>\<open>getCurrentUser\<close> returned and \<open>c\<close> the
  handle \<^verbatim>\<open>Upgrade\<close> returned.
\<close>

definition websocketHandler ::
  "(string \<Rightarrow> Message option) \<Rightarrow> string \<Rightarrow> conn \<Rightarrow> frame list \<Rightarrow> hub \<Rightarrow> hub" where
  "websocketHandler Unmarshal username c fs h =
     (let h1 = join c username h;
          h2 = send \<lparr>Type = ''userJoined'', Username = username, Content = ''''\<rparr> h1;
          (h3, left) = readLoop Unmarshal username fs h2
      in if left
         then close c (send \<lparr>Type = ''userLeft'', Username = username, Content = ''''\<rparr>
                         (leave c h3))
         else h3)"

subsection \<open>The dispatcher: broadcastMessages\<close>

text \<open>
  The inner loop \<^verbatim>\<open>for conn := range clients\<close>, run with the mutex held. \<open>ks\<close> is the
  order in which the Go runtime produces the keys of the map. An entry that was
  removed before it is reached is not produced, hence the test on \<^term>\<open>clients h c\<close>.
  \<open>fails c\<close> says whether \<^verbatim>\<open>conn.WriteMessage\<close> returns an error on handle \<open>c\<close>;
  \<open>n\<close> is the number of the event being delivered.
\<close>

fun rangeClients :: "(conn \<Rightarrow> bool) \<Rightarrow> nat \<Rightarrow> string \<Rightarrow> conn list \<Rightarrow> hub \<Rightarrow> hub" where
  "rangeClients fails n data [] h = h"
| "rangeClients fails n data (c # cs) h =
     (if clients h c = None then rangeClients fails n data cs h
      else
        (let h1 = h\<lparr>written := written h @ [(n, c, data)]\<rparr>
         in if fails c
            then rangeClients fails n data cs (leave c (close c h1))
            else rangeClients fails n data cs h1))"

text \<open>
  The body of the outer loop for the message \<open>m\<close> in hand: \<open>Marshal\<close> stands for
  \<^verbatim>\<open>json.Marshal\<close> (\<^term>\<open>None\<close> when it returns an error, and the loop continues
  with the next message). \<open>WriteFails n c\<close> says whether the write of event \<open>n\<close> to
  handle \<open>c\<close> errs. Since \<open>ks\<close> has no duplicates, no event is written twice to one
  handle, so a function of the event number and the handle can describe any outcome
  of the writes.
\<close>

definition deliver ::
  "(nat \<Rightarrow> conn \<Rightarrow> bool) \<Rightarrow> (Message \<Rightarrow> string option) \<Rightarrow> conn list \<Rightarrow> Message \<Rightarrow> hub \<Rightarrow> hub" where
  "deliver WriteFails Marshal ks m h =
     (case Marshal m of
        None \<Rightarrow> h
      | Some data \<Rightarrow> rangeClients (WriteFails (received h)) (received h) data ks h)"

text \<open>
  The goroutines interleave at the granularity of these actions. \<open>Join\<close>, \<open>Leave\<close>
  and \<open>Deliver\<close> are the three critical sections of the mutex; \<open>Send\<close> is a send on the
  channel by any handler, \<open>Receive\<close> is the dispatcher taking the next message from
  the channel, and \<open>Deliver ks\<close> is the rest of that iteration (serialise, lock, write
  to every client in the order \<open>ks\<close>, unlock). An action that cannot happen in the
  state yields \<^term>\<open>None\<close>: \<open>Join\<close> on a handle that is not new, \<open>Receive\<close> when the
  channel is empty or the dispatcher is busy, \<open>Deliver\<close> when the dispatcher holds no
  message or \<open>ks\<close> is not an enumeration of the map's keys.
\<close>

datatype action =
    Join conn string
  | Send Message
  | Leave conn
  | Close conn
  | Receive
  | Deliver "conn list"

fun step ::
  "(nat \<Rightarrow> conn \<Rightarrow> bool) \<Rightarrow> (Message \<Rightarrow> string option) \<Rightarrow> action \<Rightarrow> hub \<Rightarrow> hub option" where
  "step W M (Join c username) h = (if c \<in> upgraded h then None else Some (join c username h))"
| "step W M (Send m) h = Some (send m h)"
| "step W M (Leave c) h = Some (leave c h)"
| "step W M (Close c) h = Some (close c h)"
| "step W M Receive h =
     (case msg h of
        Some m \<Rightarrow> None
      | None \<Rightarrow>
          (case broadcast h of
             [] \<Rightarrow> None
           | m # q \<Rightarrow> Some (h\<lparr>broadcast := q, msg := Some m\<rparr>)))"
| "step W M (Deliver ks) h =
     (case msg h of
        None \<Rightarrow> None
      | Some m \<Rightarrow>
          if distinct ks \<and> set ks = dom (clients h)
          then Some ((deliver W M ks m h)\<lparr>msg := None, received := Suc (received h)\<rparr>)
          else None)"

fun run ::
  "(nat \<Rightarrow> conn \<Rightarrow> bool) \<Rightarrow> (Message \<Rightarrow> string option) \<Rightarrow> action list \<Rightarrow> hub \<Rightarrow> hub option" where
  "run W M [] h = Some h"
| "run W M (a # as) h = (case step W M a h of None \<Rightarrow> None | Some h' \<Rightarrow> run W M as h')"

text \<open>
  The numbers of the events whose delivery was attempted on handle \<open>c\<close>, in the order
  of the attempts.
\<close>

definition attempts :: "conn \<Rightarrow> hub \<Rightarrow> nat list" where
  "attempts c h = map fst (filter (\<lambda>e. fst (snd e) = c) (written h))"

text \<open>
  The invariant of the hub used in the proofs: every registered handle is one that
  \<^verbatim>\<open>Upgrade\<close> returned; the messages sent and not yet finished with are, in order,
  the one the dispatcher holds and those waiting on the channel; every recorded write
  belongs to a finished event and carries the serialisation of that event's message;
  and on every handle the event numbers of the attempts increase strictly.
\<close>

definition hub_inv :: "(Message \<Rightarrow> string option) \<Rightarrow> hub \<Rightarrow> bool" where
  "hub_inv M h \<longleftrightarrow>
     dom (clients h) \<subseteq> upgraded h
     \<and> drop (received h) (enqueued h) = (case msg h of None \<Rightarrow> [] | Some m \<Rightarrow> [m]) @ broadcast h
     \<and> received h \<le> length (enqueued h)
     \<and> (\<forall>e \<in> set (written h). fst e < received h \<and> M (enqueued h ! fst e) = Some (snd (snd e)))
     \<and> (\<forall>c. sorted_wrt (<) (attempts c h))"

text \<open>
  Two read results differ at most in the user name the client supplied: both are read
  errors, or both payloads fail to parse, or both parse to messages with the same
  type and content.
\<close>

fun same_frame :: "(string \<Rightarrow> Message option) \<Rightarrow> frame \<Rightarrow> frame \<Rightarrow> bool" where
  "same_frame U ReadError ReadError = True"
| "same_frame U (Payload p) (Payload p') =
     (case (U p, U p') of
        (Some m, Some m') \<Rightarrow> Type m = Type m' \<and> Content m = Content m'
      | (None, None) \<Rightarrow> True
      | _ \<Rightarrow> False)"
| "same_frame U _ _ = False"

text \<open>
  Examples. Two outcomes of the writes (none fails; the write of event 2 to handle 9
  fails), a serialiser standing for \<^verbatim>\<open>json.Marshal\<close>, three messages, and a schedule:
  \<open>bob\<close> joins on handle 7 and \<open>carol\<close> on handle 9, each join event is delivered, then
  \<open>bob\<close> sends a chat message and the dispatcher receives it. \<open>hub_ex\<close> is the state
  reached, \<open>hub_ex_done\<close> the state after the delivery when no write fails,
  \<open>hub_ex_failed\<close> the state after it when the write to handle 9 fails, and
  \<open>hub_ex_left\<close> the state after \<open>carol\<close>'s handler has left before the delivery.
\<close>

definition never_fails :: "nat \<Rightarrow> conn \<Rightarrow> bool" where
  "never_fails n c = False"

definition fails_carol :: "nat \<Rightarrow> conn \<Rightarrow> bool" where
  "fails_carol n c = (n = 2 \<and> c = 9)"

definition Marshal_ex :: "Message \<Rightarrow> string option" where
  "Marshal_ex m = Some (Type m @ '':'' @ Username m @ '':'' @ Content m)"

definition joined_bob :: Message where
  "joined_bob = \<lparr>Type = ''userJoined'', Username = ''bob'', Content = ''''\<rparr>"

definition joined_carol :: Message where
  "joined_carol = \<lparr>Type = ''userJoined'', Username = ''carol'', Content = ''''\<rparr>"

definition chat_hi :: Message where
  "chat_hi = \<lparr>Type = ''message'', Username = ''bob'', Content = ''hi''\<rparr>"

definition sched_ex :: "action list" where
  "sched_ex =
     [Join 7 ''bob'', Send joined_bob, Receive, Deliver [7],
      Join 9 ''carol'', Send joined_carol, Receive, Deliver [9, 7],
      Send chat_hi, Receive]"

definition hub_ex :: hub where
  "hub_ex =
     \<lparr>clients = Map.empty(7 \<mapsto> ''bob'', 9 \<mapsto> ''carol''), broadcast = [], msg = Some chat_hi,
      upgraded = {9, 7}, closed = {},
      written = [(0, 7, ''userJoined:bob:''), (1, 9, ''userJoined:carol:''),
                 (1, 7, ''userJoined:carol:'')],
      enqueued = [joined_bob, joined_carol, chat_hi], received = 2\<rparr>"

definition hub_ex_done :: hub where
  "hub_ex_done =
     \<lparr>clients = Map.empty(7 \<mapsto> ''bob'', 9 \<mapsto> ''carol''), broadcast = [], msg = None,
      upgraded = {9, 7}, closed = {},
      written = [(0, 7, ''userJoined:bob:''), (1, 9, ''userJoined:carol:''),
                 (1, 7, ''userJoined:carol:''), (2, 9, ''message:bob:hi''),
                 (2, 7, ''message:bob:hi'')],
      enqueued = [joined_bob, joined_carol, chat_hi], received = 3\<rparr>"

definition hub_ex_failed :: hub where
  "hub_ex_failed =
     \<lparr>clients = Map.empty(7 \<mapsto> ''bob''), broadcast = [], msg = None,
      upgraded = {9, 7}, closed = {9},
      written = [(0, 7, ''userJoined:bob:''), (1, 9, ''userJoined:carol:''),
                 (1, 7, ''userJoined:carol:''), (2, 9, ''message:bob:hi''),
                 (2, 7, ''message:bob:hi'')],
      enqueued = [joined_bob, joined_carol, chat_hi], received = 3\<rparr>"

definition hub_ex_left :: hub where
  "hub_ex_left =
     \<lparr>clients = Map.empty(7 \<mapsto> ''bob''), broadcast = [], msg = None,
      upgraded = {9, 7}, closed = {},
      written = [(0, 7, ''userJoined:bob:''), (1, 9, ''userJoined:carol:''),
                 (1, 7, ''userJoined:carol:''), (2, 7, ''message:bob:hi'')],
      enqueued = [joined_bob, joined_carol, chat_hi], received = 3\<rparr>"

definition later_ex :: "action list" where
  "later_ex = [Send joined_carol, Receive, Deliver [7]]"

definition hub_ex_later :: hub where
  "hub_ex_later =
     \<lparr>clients = Map.empty(7 \<mapsto> ''bob''), broadcast = [], msg = None,
      upgraded = {9, 7}, closed = {9},
      written = [(0, 7, ''userJoined:bob:''), (1, 9, ''userJoined:carol:''),
                 (1, 7, ''userJoined:carol:''), (2, 9, ''message:bob:hi''),
                 (2, 7, ''message:bob:hi''), (3, 7, ''userJoined:carol:'')],
      enqueued = [joined_bob, joined_carol, chat_hi, joined_carol], received = 4\<rparr>"

text \<open>A decoder for the examples, standing for \<^verbatim>\<open>json.Unmarshal\<close>, and a forged message.\<close>

definition Unmarshal_ex :: "string \<Rightarrow> Message option" where
  "Unmarshal_ex p =
     (if p = ''hi as bob'' then Some \<lparr>Type = ''message'', Username = ''bob'', Content = ''hi''\<rparr>
      else if p = ''hi as carol''
        then Some \<lparr>Type = ''message'', Username = ''carol'', Content = ''hi''\<rparr>
      else if p = ''carol left''
        then Some \<lparr>Type = ''userLeft'', Username = ''carol'', Content = ''''\<rparr>
      else None)"

definition forged_left :: Message where
  "forged_left = \<lparr>Type = ''userLeft'', Username = ''carol'', Content = ''''\<rparr>"

section \<open>Session registry: properties\<close>

lemma getCurrentUser_live:
  assumes "ss v = Some s" and "now1 \<le> ExpiresAt s"
  shows "getCurrentUser now1 now2 (Some v) ss =
           ((Session_Username s, True), ss(v \<mapsto> s\<lparr>ExpiresAt := now2 + TTL\<rparr>))"
  using assms by (simp add: getCurrentUser_def)

lemma getCurrentUser_absent:
  assumes "ss v = None"
  shows "getCurrentUser now1 now2 (Some v) ss = (('''', False), ss)"
  using assms by (simp add: getCurrentUser_def)

lemma getCurrentUser_expired:
  assumes "ss v = Some s" and "ExpiresAt s < now1"
  shows "getCurrentUser now1 now2 (Some v) ss = (('''', False), ss)"
  using assms by (simp add: getCurrentUser_def)

lemma getCurrentUser_repeat_live:
  assumes "ss v = Some s" and "within_ttl (ExpiresAt s) ts"
  shows "fst (getCurrentUser_repeat ts v ss) = replicate (length ts) (Session_Username s, True)"
  using assms
proof (induction ts arbitrary: ss s)
  case Nil
  then show ?case by simp
next
  case (Cons t ts)
  obtain now1 now2 where t: "t = (now1, now2)" by (cases t)
  let ?s' = "s\<lparr>ExpiresAt := now2 + TTL\<rparr>"
  let ?ss' = "ss(v \<mapsto> ?s')"
  from Cons.prems t have le: "now1 \<le> ExpiresAt s" and rest: "within_ttl (now2 + TTL) ts"
    by simp_all
  have step: "getCurrentUser now1 now2 (Some v) ss = ((Session_Username s, True), ?ss')"
    using Cons.prems(1) le by (rule getCurrentUser_live)
  have "?ss' v = Some ?s'" by simp
  moreover have "within_ttl (ExpiresAt ?s') ts" using rest by simp
  ultimately have "fst (getCurrentUser_repeat ts v ?ss') =
      replicate (length ts) (Session_Username ?s', True)"
    by (rule Cons.IH)
  then show ?case
    by (simp add: t step case_prod_beta)
qed

lemma sessions_ex_tok: "sessions_ex ''tok'' = Some alice_session"
  by (simp add: sessions_ex_def)

lemma sessions_ex_nope: "sessions_ex ''nope'' = None"
  by (simp add: sessions_ex_def)

lemma alice_session_simps:
  "Session_Username alice_session = ''alice''" "ExpiresAt alice_session = 100"
  by (simp_all add: alice_session_def)

lemma alice_within_ttl:
  "within_ttl 100 [(50, 60), (60 + TTL, 70 + TTL), (70 + 2 * TTL, 80 + 2 * TTL)]"
  by simp

text \<open>
  C3. For a token present in the session map whose expiry is not in the past,
  \<^const>\<open>getCurrentUser\<close> returns the owning user name and rewrites the session's
  expiry to the (second) clock reading plus the 24-hour TTL. For a token that is not
  in the map, or whose expiry is past, it returns absent (the pair of the empty
  string and false). Hence a run of lookups of one token, each made before the expiry
  then in force, returns the same user name every time and never absent.
\<close>

theorem getCurrentUser_sliding:
  "(ss v = Some s \<and> now1 \<le> ExpiresAt s \<longrightarrow>
      getCurrentUser now1 now2 (Some v) ss =
        ((Session_Username s, True), ss(v \<mapsto> s\<lparr>ExpiresAt := now2 + TTL\<rparr>)))
   \<and> (ss v = None \<or> (ss v = Some s \<and> ExpiresAt s < now1) \<longrightarrow>
      fst (getCurrentUser now1 now2 (Some v) ss) = ('''', False))
   \<and> (ss v = Some s \<and> within_ttl (ExpiresAt s) ts \<longrightarrow>
      fst (getCurrentUser_repeat ts v ss) = replicate (length ts) (Session_Username s, True))
   \<and> TTL = 86400000000000"
proof (intro conjI impI)
  assume "ss v = Some s \<and> now1 \<le> ExpiresAt s"
  then show "getCurrentUser now1 now2 (Some v) ss =
      ((Session_Username s, True), ss(v \<mapsto> s\<lparr>ExpiresAt := now2 + TTL\<rparr>))"
    by (simp add: getCurrentUser_live)
next
  assume "ss v = None \<or> (ss v = Some s \<and> ExpiresAt s < now1)"
  then show "fst (getCurrentUser now1 now2 (Some v) ss) = ('''', False)"
    by (auto simp: getCurrentUser_absent getCurrentUser_expired)
next
  assume "ss v = Some s \<and> within_ttl (ExpiresAt s) ts"
  then show "fst (getCurrentUser_repeat ts v ss) =
      replicate (length ts) (Session_Username s, True)"
    by (simp add: getCurrentUser_repeat_live)
next
  show "TTL = 86400000000000" by (simp add: TTL_def Hour_def)
qed

theorem getCurrentUser_sliding_witness:
  "sessions_ex ''tok'' = Some alice_session
   \<and> (50::int) \<le> ExpiresAt alice_session
   \<and> getCurrentUser 50 60 (Some ''tok'') sessions_ex =
       ((''alice'', True), sessions_ex(''tok'' \<mapsto> alice_session\<lparr>ExpiresAt := 60 + TTL\<rparr>))
   \<and> sessions_ex ''nope'' = None
   \<and> fst (getCurrentUser 50 60 (Some ''nope'') sessions_ex) = ('''', False)
   \<and> within_ttl (ExpiresAt alice_session)
        [(50, 60), (60 + TTL, 70 + TTL), (70 + 2 * TTL, 80 + 2 * TTL)]
   \<and> fst (getCurrentUser_repeat [(50, 60), (60 + TTL, 70 + TTL), (70 + 2 * TTL, 80 + 2 * TTL)]
            ''tok'' sessions_ex) =
       [(''alice'', True), (''alice'', True), (''alice'', True)]"
  using getCurrentUser_sliding [of sessions_ex "''tok''" alice_session 50 60
      "[(50, 60), (60 + TTL, 70 + TTL), (70 + 2 * TTL, 80 + 2 * TTL)]"]
    getCurrentUser_sliding [of sessions_ex "''nope''" alice_session 50 60 "[]"]
  by (simp del: getCurrentUser_repeat.simps within_ttl.simps
        add: sessions_ex_tok sessions_ex_nope alice_session_simps alice_within_ttl)

text \<open>
  C7, as stated, fails: a lookup that finds the session expired returns absent but
  leaves the entry in the session map. Here the token \<open>tok\<close> expired at 100 and is
  looked up at 200.
\<close>

theorem expired_lookup_keeps_entry:
  "ExpiresAt alice_session < 200
   \<and> fst (getCurrentUser 200 200 (Some ''tok'') sessions_ex) = ('''', False)
   \<and> snd (getCurrentUser 200 200 (Some ''tok'') sessions_ex) ''tok'' = Some alice_session"
  by (simp add: getCurrentUser_def sessions_ex_def alice_session_def)

lemma getCurrentUser_dom: "dom (snd (getCurrentUser now1 now2 cookie ss)) = dom ss"
  by (auto simp: getCurrentUser_def Let_def split: option.splits if_splits)

lemma loginHandler_dom:
  "dom ss \<subseteq> dom (snd (snd (loginHandler D rf e sid n1 n2 body r ss)))"
  by (auto simp: loginHandler_def Let_def case_prod_beta split: option.splits)

lemma handle_keeps:
  assumes v: "v \<in> dom ss" and q: "q \<noteq> Logout_request (Some v)"
  shows "v \<in> dom (snd (handle D q (r, ss)))"
proof (cases q)
  case (Login_request rf e sid n1 n2 body)
  with v loginHandler_dom [of ss D rf e sid n1 n2 body r] show ?thesis
    by auto
next
  case (Lookup_request n1 n2 cookie)
  with v getCurrentUser_dom [of n1 n2 cookie ss] show ?thesis
    by simp
next
  case (Logout_request cookie)
  with v q show ?thesis
    by (cases cookie) (auto simp: logoutHandler_def)
qed

lemma handle_all_keeps:
  "v \<in> dom (snd st) \<Longrightarrow> Logout_request (Some v) \<notin> set qs \<Longrightarrow>
   v \<in> dom (snd (handle_all D qs st))"
proof (induction qs arbitrary: st)
  case Nil
  then show ?case by simp
next
  case (Cons q qs)
  obtain r ss where st: "st = (r, ss)" by (cases st)
  from Cons.prems have "v \<in> dom ss" and "q \<noteq> Logout_request (Some v)"
    by (auto simp: st)
  then have "v \<in> dom (snd (handle D q (r, ss)))" by (rule handle_keeps)
  moreover from Cons.prems have "Logout_request (Some v) \<notin> set qs" by simp
  ultimately have "v \<in> dom (snd (handle_all D qs (handle D q (r, ss))))"
    by (rule Cons.IH)
  then show ?case by (simp add: st)
qed

text \<open>
  C7, amended. A session entry is removed from the token map by logout only. Logout
  removes the entry of the presented token and no other. A lookup, whatever the cookie
  and whatever it finds, leaves the set of tokens in the map as it was; in particular
  a lookup that finds \<open>now > expiresAt\<close> answers absent and leaves the session map
  unchanged, so the expired entry stays in the map. A login removes no entry. Hence
  after any run of logins, lookups and logouts a token is still in the map unless
  one of the requests was a logout presenting that token.
\<close>

theorem session_removed_by_logout_only:
  "snd (logoutHandler b (Some v) ss) = ss(v := None)
   \<and> snd (logoutHandler b None ss) = ss
   \<and> dom (snd (getCurrentUser now1 now2 cookie ss)) = dom ss
   \<and> (ss v = Some s \<and> ExpiresAt s < now1 \<longrightarrow>
        getCurrentUser now1 now2 (Some v) ss = (('''', False), ss))
   \<and> dom ss \<subseteq> dom (snd (snd (loginHandler D rf e sid n1 n2 body r ss)))
   \<and> (v \<in> dom ss \<and> Logout_request (Some v) \<notin> set qs \<longrightarrow>
        v \<in> dom (snd (handle_all D qs (r, ss))))"
proof (intro conjI impI)
  show "snd (logoutHandler b (Some v) ss) = ss(v := None)"
    and "snd (logoutHandler b None ss) = ss"
    by (simp_all add: logoutHandler_def)
  show "dom (snd (getCurrentUser now1 now2 cookie ss)) = dom ss"
    by (rule getCurrentUser_dom)
  show "dom ss \<subseteq> dom (snd (snd (loginHandler D rf e sid n1 n2 body r ss)))"
    by (rule loginHandler_dom)
next
  assume "ss v = Some s \<and> ExpiresAt s < now1"
  then show "getCurrentUser now1 now2 (Some v) ss = (('''', False), ss)"
    by (simp add: getCurrentUser_expired)
next
  assume "v \<in> dom ss \<and> Logout_request (Some v) \<notin> set qs"
  then show "v \<in> dom (snd (handle_all D qs (r, ss)))"
    by (simp add: handle_all_keeps)
qed

theorem session_removed_by_logout_only_witness:
  "snd (logoutHandler ''bye'' (Some ''tok'') sessions_ex) = sessions_ex(''tok'' := None)
   \<and> sessions_ex ''tok'' = Some alice_session
   \<and> ExpiresAt alice_session < 200
   \<and> getCurrentUser 200 210 (Some ''tok'') sessions_ex = (('''', False), sessions_ex)
   \<and> ''tok'' \<in> dom sessions_ex
   \<and> Logout_request (Some ''tok'') \<notin> set requests_ex
   \<and> ''tok'' \<in> dom (snd (handle_all Decode_ex requests_ex (redis_alice, sessions_ex)))"
proof -
  note T = session_removed_by_logout_only [where b = "''bye''" and v = "''tok''"
      and ss = sessions_ex and s = alice_session and ?now1.0 = 200 and ?now2.0 = 210
      and cookie = "Some ''tok''" and D = Decode_ex and qs = requests_ex and r = redis_alice]
  have e: "ExpiresAt alice_session < 200" by (simp add: alice_session_simps)
  have d: "''tok'' \<in> dom sessions_ex" by (simp add: sessions_ex_def)
  have n: "Logout_request (Some ''tok'') \<notin> set requests_ex" by (simp add: requests_ex_def)
  from T sessions_ex_tok e d n show ?thesis by blast
qed

text \<open>
  C8. \<^const>\<open>logoutHandler\<close> removes the session named by the presented cookie whatever
  the map holds, answers 200 and sets an expired, empty \<open>session_id\<close> cookie on every
  request (with or without a cookie). Revoking an absent token changes nothing,
  revoking twice is revoking once, and a lookup of a revoked token returns absent.
\<close>

theorem logoutHandler_revoke:
  "StatusCode (fst (logoutHandler b cookie ss)) = 200
   \<and> SetCookie (fst (logoutHandler b cookie ss)) =
       Some \<lparr>Name = ''session_id'', Value = '''', Expires = 0, HttpOnly = True, Path = ''/''\<rparr>
   \<and> snd (logoutHandler b (Some v) ss) = ss(v := None)
   \<and> snd (logoutHandler b None ss) = ss
   \<and> (ss v = None \<longrightarrow> snd (logoutHandler b (Some v) ss) = ss)
   \<and> snd (logoutHandler b (Some v) (snd (logoutHandler b (Some v) ss))) =
       snd (logoutHandler b (Some v) ss)
   \<and> fst (getCurrentUser now1 now2 (Some v) (snd (logoutHandler b (Some v) ss))) = ('''', False)"
  by (auto simp: logoutHandler_def getCurrentUser_def)

theorem logoutHandler_revoke_witness:
  "StatusCode (fst (logoutHandler ''bye'' None sessions_ex)) = 200
   \<and> snd (logoutHandler ''bye'' (Some ''tok'') sessions_ex) = sessions_ex(''tok'' := None)
   \<and> sessions_ex ''nope'' = None
   \<and> snd (logoutHandler ''bye'' (Some ''nope'') sessions_ex) = sessions_ex
   \<and> fst (getCurrentUser 50 60 (Some ''tok'') (snd (logoutHandler ''bye'' (Some ''tok'') sessions_ex))) =
       ('''', False)"
  using logoutHandler_revoke [of "''bye''" None sessions_ex "''tok''" 50 60]
    logoutHandler_revoke [of "''bye''" None sessions_ex "''nope''" 50 60]
    sessions_ex_nope
  by blast

section \<open>Directory service and register handler: properties\<close>

lemma Register_conflict:
  assumes "kv r (''user:'' @ User_Username req) \<noteq> None"
  shows "Register False e2 req r =
           ((\<lparr>Success = False, Text = Username_exists\<rparr>, False),
            r\<lparr>calls := calls r @ [EXISTS (''user:'' @ User_Username req)]\<rparr>)"
  using assms by (auto simp: Register_def Register_exists_def rdb_Exists_def Let_def)

lemma Register_fresh:
  assumes "kv r (''user:'' @ User_Username req) = None"
  shows "Register False Set_ok req r =
           ((\<lparr>Success = True, Text = Register_ok\<rparr>, False),
            r\<lparr>kv := (kv r)(''user:'' @ User_Username req \<mapsto> Password req),
              calls := calls r @ [EXISTS (''user:'' @ User_Username req),
                                  SET (''user:'' @ User_Username req) (Password req)]\<rparr>)"
  using assms
  by (simp add: Register_def Register_exists_def Register_set_def rdb_Exists_def rdb_Set_def
        Let_def)

lemma Register_exists_error:
  "Register True e2 req r =
     ((\<lparr>Success = False, Text = Redis_error\<rparr>, True),
      r\<lparr>calls := calls r @ [EXISTS (''user:'' @ User_Username req)]\<rparr>)"
  by (simp add: Register_def Register_exists_def rdb_Exists_def Let_def)

lemma Register_set_error:
  assumes "kv r (''user:'' @ User_Username req) = None" and "e2 \<noteq> Set_ok"
  shows "fst (Register False e2 req r) = (\<lparr>Success = False, Text = Register_failed\<rparr>, True)"
  using assms
  by (cases e2)
     (simp_all add: Register_def Register_exists_def Register_set_def rdb_Exists_def
        rdb_Set_def Let_def)

lemma Register_no_set:
  assumes "e1 \<or> kv r (''user:'' @ User_Username req) \<noteq> None"
  shows "calls (snd (Register e1 e2 req r)) =
           calls r @ [EXISTS (''user:'' @ User_Username req)]"
proof (cases e1)
  case True
  then show ?thesis by (simp add: Register_exists_error)
next
  case False
  with assms have "kv r (''user:'' @ User_Username req) \<noteq> None" by simp
  from Register_conflict [OF this, of e2] False show ?thesis by simp
qed

lemma Register_first_call:
  "take (Suc (length (calls r))) (calls (snd (Register e1 e2 req r))) =
     calls r @ [EXISTS (''user:'' @ User_Username req)]"
  by (cases e2)
     (auto simp: Register_def Register_exists_def Register_set_def rdb_Exists_def
        rdb_Set_def Let_def)

lemma Register_reply:
  "fst (Register e1 e2 req r) =
     (if e1 then (\<lparr>Success = False, Text = Redis_error\<rparr>, True)
      else if kv r (''user:'' @ User_Username req) \<noteq> None
        then (\<lparr>Success = False, Text = Username_exists\<rparr>, False)
      else if e2 = Set_ok then (\<lparr>Success = True, Text = Register_ok\<rparr>, False)
      else (\<lparr>Success = False, Text = Register_failed\<rparr>, True))"
  by (cases e2)
     (auto simp: Register_def Register_exists_def Register_set_def rdb_Exists_def
        rdb_Set_def Let_def)

lemma Register_keeps: "kv r k = Some v \<Longrightarrow> kv (snd (Register e1 e2 req r)) k = Some v"
  by (cases e2)
     (auto simp: Register_def Register_exists_def Register_set_def rdb_Exists_def
        rdb_Set_def Let_def)

lemma Login_kv: "kv (snd (Login e req r)) = kv r"
  by (simp add: Login_def rdb_Get_def Let_def split: option.splits get_result.splits)

lemma serve_keeps: "kv r k = Some v \<Longrightarrow> kv (serve c r) k = Some v"
  by (cases c) (simp_all add: Register_keeps Login_kv)

lemma serve_all_keeps: "kv r k = Some v \<Longrightarrow> kv (serve_all cs r) k = Some v"
  by (induction cs arbitrary: r) (simp_all add: serve_keeps)

lemma registerHandler_users_keeps:
  "users u = Some x \<Longrightarrow> snd (registerHandler_users D body users) u = Some x"
  by (auto simp: registerHandler_users_def split: option.splits)

text \<open>
  C5, as stated, fails in its last clause: the existence test and the \<^verbatim>\<open>Set\<close> of
  \<^verbatim>\<open>Register\<close> are two remote calls, and two registrations of one new name can
  both pass the test before either sets. Both then succeed, and the second \<^verbatim>\<open>Set\<close>
  overwrites the record the first one created.
\<close>

theorem register_overlap_overwrites:
  "fst (Register_exists False alice1 redis0) = None
   \<and> fst (Register_exists False alice2 overlap1) = None
   \<and> fst (Register_set Set_ok alice1 overlap2) = (\<lparr>Success = True, Text = Register_ok\<rparr>, False)
   \<and> kv overlap3 ''user:alice'' = Some ''secret1''
   \<and> fst (Register_set Set_ok alice2 overlap3) = (\<lparr>Success = True, Text = Register_ok\<rparr>, False)
   \<and> kv overlap4 ''user:alice'' = Some ''other12''"
  by (simp add: overlap1_def overlap2_def overlap3_def overlap4_def Register_exists_def
        Register_set_def rdb_Exists_def rdb_Set_def Let_def alice1_def alice2_def redis0_def)

text \<open>
  C5, amended. \<^const>\<open>Register\<close> tests existence first. When a record exists it
  returns the conflict reply without issuing a \<^verbatim>\<open>Set\<close>, and the store is unchanged. It
  issues a \<^verbatim>\<open>Set\<close> only when the test answered that no record exists, and a \<^verbatim>\<open>Set\<close>
  that succeeds stores the given password. When a remote call errs it returns the
  error. A user record that exists when an operation starts is neither changed nor
  deleted by that operation, whatever the outcomes of its remote calls, so no run of
  operations executed one after the other changes or deletes a record (the same holds
  of the older handler's user map). Registrations that overlap are not covered.
\<close>

theorem Register_check_then_set:
  "(kv r (''user:'' @ User_Username req) \<noteq> None \<longrightarrow>
      Register False e2 req r =
        ((\<lparr>Success = False, Text = Username_exists\<rparr>, False),
         r\<lparr>calls := calls r @ [EXISTS (''user:'' @ User_Username req)]\<rparr>))
   \<and> (kv r (''user:'' @ User_Username req) = None \<longrightarrow>
      Register False Set_ok req r =
        ((\<lparr>Success = True, Text = Register_ok\<rparr>, False),
         r\<lparr>kv := (kv r)(''user:'' @ User_Username req \<mapsto> Password req),
           calls := calls r @ [EXISTS (''user:'' @ User_Username req),
                               SET (''user:'' @ User_Username req) (Password req)]\<rparr>))
   \<and> (e1 \<or> kv r (''user:'' @ User_Username req) \<noteq> None \<longrightarrow>
      calls (snd (Register e1 e2 req r)) = calls r @ [EXISTS (''user:'' @ User_Username req)])
   \<and> fst (Register True e2 req r) = (\<lparr>Success = False, Text = Redis_error\<rparr>, True)
   \<and> (kv r (''user:'' @ User_Username req) = None \<and> e2 \<noteq> Set_ok \<longrightarrow>
      fst (Register False e2 req r) = (\<lparr>Success = False, Text = Register_failed\<rparr>, True))
   \<and> (kv r k = Some v \<longrightarrow> kv (serve_all cs r) k = Some v)
   \<and> (users u = Some x \<longrightarrow> snd (registerHandler_users D body users) u = Some x)"
  by (simp add: Register_conflict Register_fresh Register_exists_error Register_set_error
        Register_no_set serve_all_keeps registerHandler_users_keeps)

lemma redis_alice_simps:
  "kv redis_alice ''user:alice'' = Some ''secret1''" "calls redis_alice = []"
  "kv redis0 ''user:alice'' = None" "calls redis0 = []"
  "User_Username alice1 = ''alice''" "Password alice1 = ''secret1''"
  "User_Username alice2 = ''alice''" "Password alice2 = ''other12''"
  by (simp_all add: redis_alice_def redis0_def alice1_def alice2_def)

theorem Register_check_then_set_witness:
  "kv redis_alice (''user:'' @ User_Username alice2) \<noteq> None
   \<and> Register False Set_ok alice2 redis_alice =
        ((\<lparr>Success = False, Text = Username_exists\<rparr>, False),
         redis_alice\<lparr>calls := [EXISTS ''user:alice'']\<rparr>)
   \<and> kv redis0 (''user:'' @ User_Username alice1) = None
   \<and> Register False Set_ok alice1 redis0 =
        ((\<lparr>Success = True, Text = Register_ok\<rparr>, False),
         redis0\<lparr>kv := (kv redis0)(''user:alice'' \<mapsto> ''secret1''),
           calls := [EXISTS ''user:alice'', SET ''user:alice'' ''secret1'']\<rparr>)
   \<and> Set_error_applied \<noteq> Set_ok
   \<and> fst (Register False Set_error_applied alice1 redis0) =
        (\<lparr>Success = False, Text = Register_failed\<rparr>, True)
   \<and> kv redis_alice ''user:alice'' = Some ''secret1''
   \<and> kv (serve_all [Register_rpc False Set_error_applied alice2, Login_rpc False alice2]
          redis_alice) ''user:alice'' = Some ''secret1''"
  using Register_check_then_set [where r = redis_alice and req = alice2 and ?e1.0 = False
      and ?e2.0 = Set_ok and k = "''user:alice''" and v = "''secret1''"
      and cs = "[Register_rpc False Set_error_applied alice2, Login_rpc False alice2]"
      and users = Map.empty and u = "''x''" and x = alice1 and D = Decode_ex and body = "''a1''"]
    Register_check_then_set [where r = redis0 and req = alice1 and ?e1.0 = False
      and ?e2.0 = Set_ok and k = "''user:bob''" and v = "''secret1''" and cs = "[]"
      and users = Map.empty and u = "''x''" and x = alice1 and D = Decode_ex and body = "''a1''"]
    Register_check_then_set [where r = redis0 and req = alice1 and ?e1.0 = False
      and ?e2.0 = Set_error_applied and k = "''user:bob''" and v = "''secret1''" and cs = "[]"
      and users = Map.empty and u = "''x''" and x = alice1 and D = Decode_ex and body = "''a1''"]
  by (simp del: serve_all.simps add: redis_alice_simps)

lemma Decode_ex_simps:
  "Decode_ex ''junk'' = None"
  "Decode_ex ''short'' = Some \<lparr>User_Username = ''bob'', Password = ''12345''\<rparr>"
  "Decode_ex ''a1'' = Some alice1"
  "Decode_ex ''eee'' = Some \<lparr>User_Username = ''bob'', Password = pw_eee\<rparr>"
  by (simp_all add: Decode_ex_def)

text \<open>
  C6, as stated, fails: the handler compares \<^verbatim>\<open>len(req.Password)\<close>, the number of
  bytes of the password, with 6. A password of three characters whose UTF-8 encoding
  has six bytes is accepted: the handler answers 200 and the record is stored.
\<close>

theorem password_of_three_characters_accepted:
  "utf8_length pw_eee = 3
   \<and> length pw_eee = 6
   \<and> Decode_ex ''eee'' = Some \<lparr>User_Username = ''bob'', Password = pw_eee\<rparr>
   \<and> fst (registerHandler Decode_ex False False Set_ok ''eee'' redis0) = 200
   \<and> kv (snd (registerHandler Decode_ex False False Set_ok ''eee'' redis0)) ''user:bob'' =
       Some pw_eee"
  by (simp add: utf8_length_def pw_eee_def Decode_ex_def registerHandler_def Register_def
        Register_exists_def Register_set_def rdb_Exists_def rdb_Set_def Let_def redis0_def)

text \<open>
  C6, amended. \<^const>\<open>registerHandler\<close> answers 400, and leaves the store untouched (no
  command issued), exactly when the body fails to decode, the user name is empty, the
  password is empty or the password has fewer than 6 bytes (\<^verbatim>\<open>len\<close> counts bytes, not
  characters). For any other input it calls the directory service, whose first command
  is the existence test, and answers 200 on success, 409 when the name exists and 500
  when a remote call errs. The older handler answers 400 on the same inputs, and
  otherwise 409 when the name exists and 200 after storing the user.
\<close>

theorem registerHandler_status:
  "(D body = None \<longrightarrow>
      registerHandler D rf e1 e2 body r = (400, r)
      \<and> registerHandler_users D body us = (400, us))
   \<and> (D body = Some req \<and>
        (User_Username req = '''' \<or> Password req = '''' \<or> length (Password req) < 6) \<longrightarrow>
        registerHandler D rf e1 e2 body r = (400, r)
        \<and> registerHandler_users D body us = (400, us))
   \<and> (D body = Some req \<and> User_Username req \<noteq> '''' \<and> 6 \<le> length (Password req) \<longrightarrow>
        fst (registerHandler D rf e1 e2 body r) \<noteq> 400
        \<and> (\<not> rf \<longrightarrow>
             take (Suc (length (calls r))) (calls (snd (registerHandler D rf e1 e2 body r))) =
               calls r @ [EXISTS (''user:'' @ User_Username req)])
        \<and> (fst (registerHandler D rf e1 e2 body r) = 200 \<longleftrightarrow>
             \<not> rf \<and> \<not> e1 \<and> kv r (''user:'' @ User_Username req) = None \<and> e2 = Set_ok)
        \<and> (fst (registerHandler D rf e1 e2 body r) = 409 \<longleftrightarrow>
             \<not> rf \<and> \<not> e1 \<and> kv r (''user:'' @ User_Username req) \<noteq> None)
        \<and> (fst (registerHandler D rf e1 e2 body r) = 500 \<longleftrightarrow>
             rf \<or> e1 \<or> (kv r (''user:'' @ User_Username req) = None \<and> e2 \<noteq> Set_ok))
        \<and> registerHandler_users D body us =
             (if us (User_Username req) \<noteq> None then (409, us)
              else (200, us(User_Username req \<mapsto> req))))"
proof (intro conjI impI)
  assume "D body = None"
  then show "registerHandler D rf e1 e2 body r = (400, r)"
    and "registerHandler_users D body us = (400, us)"
    by (simp_all add: registerHandler_def registerHandler_users_def)
next
  assume "D body = Some req \<and>
    (User_Username req = '''' \<or> Password req = '''' \<or> length (Password req) < 6)"
  then show "registerHandler D rf e1 e2 body r = (400, r)"
    and "registerHandler_users D body us = (400, us)"
    by (auto simp: registerHandler_def registerHandler_users_def)
next
  assume a: "D body = Some req \<and> User_Username req \<noteq> '''' \<and> 6 \<le> length (Password req)"
  let ?key = "''user:'' @ User_Username req"
  from a have pw: "Password req \<noteq> ''''" "\<not> length (Password req) < 6" by auto
  have h: "registerHandler D rf e1 e2 body r =
      (if rf then (500, r)
       else (if snd (fst (Register e1 e2 req r)) then 500
             else if \<not> Success (fst (fst (Register e1 e2 req r))) then 409 else 200,
             snd (Register e1 e2 req r)))"
    using a pw by (simp add: registerHandler_def case_prod_beta Let_def)
  note R = Register_reply [of e1 e2 req r]
  show "fst (registerHandler D rf e1 e2 body r) \<noteq> 400"
    unfolding h R by simp
  show "fst (registerHandler D rf e1 e2 body r) = 200 \<longleftrightarrow>
      \<not> rf \<and> \<not> e1 \<and> kv r ?key = None \<and> e2 = Set_ok"
    unfolding h R by simp
  show "fst (registerHandler D rf e1 e2 body r) = 409 \<longleftrightarrow>
      \<not> rf \<and> \<not> e1 \<and> kv r ?key \<noteq> None"
    unfolding h R by simp
  show "fst (registerHandler D rf e1 e2 body r) = 500 \<longleftrightarrow>
      rf \<or> e1 \<or> (kv r ?key = None \<and> e2 \<noteq> Set_ok)"
    unfolding h R by auto
  show "registerHandler_users D body us =
      (if us (User_Username req) \<noteq> None then (409, us)
       else (200, us(User_Username req \<mapsto> req)))"
    using a pw by (simp add: registerHandler_users_def)
  assume "\<not> rf"
  then show "take (Suc (length (calls r))) (calls (snd (registerHandler D rf e1 e2 body r))) =
      calls r @ [EXISTS ?key]"
    unfolding h by (simp add: Register_first_call)
qed

theorem registerHandler_status_witness:
  "Decode_ex ''junk'' = None
   \<and> registerHandler Decode_ex False False Set_ok ''junk'' redis0 = (400, redis0)
   \<and> Decode_ex ''short'' = Some \<lparr>User_Username = ''bob'', Password = ''12345''\<rparr>
   \<and> length ''12345'' < 6
   \<and> registerHandler Decode_ex False False Set_ok ''short'' redis0 = (400, redis0)
   \<and> Decode_ex ''a1'' = Some alice1
   \<and> User_Username alice1 \<noteq> ''''
   \<and> 6 \<le> length (Password alice1)
   \<and> fst (registerHandler Decode_ex False False Set_ok ''a1'' redis0) = 200
   \<and> fst (registerHandler Decode_ex False False Set_ok ''a1'' redis_alice) = 409
   \<and> fst (registerHandler Decode_ex False True Set_ok ''a1'' redis0) = 500
   \<and> fst (registerHandler Decode_ex False False Set_error_applied ''a1'' redis0) = 500
   \<and> fst (registerHandler Decode_ex True False Set_ok ''a1'' redis0) = 500"
  using registerHandler_status [of Decode_ex "''junk''" False False Set_ok redis0 Map.empty alice1]
    registerHandler_status [of Decode_ex "''short''" False False Set_ok redis0 Map.empty
      "\<lparr>User_Username = ''bob'', Password = ''12345''\<rparr>"]
    registerHandler_status [of Decode_ex "''a1''" False False Set_ok redis0 Map.empty alice1]
    registerHandler_status [of Decode_ex "''a1''" False False Set_ok redis_alice Map.empty alice1]
    registerHandler_status [of Decode_ex "''a1''" False True Set_ok redis0 Map.empty alice1]
    registerHandler_status [of Decode_ex "''a1''" False False Set_error_applied redis0 Map.empty
      alice1]
    registerHandler_status [of Decode_ex "''a1''" True False Set_ok redis0 Map.empty alice1]
  by (simp add: Decode_ex_simps redis_alice_simps)

section \<open>Dispatcher: properties\<close>

lemma rangeClients_fields:
  "broadcast (rangeClients F n d ks h) = broadcast h"
  "msg (rangeClients F n d ks h) = msg h"
  "upgraded (rangeClients F n d ks h) = upgraded h"
  "enqueued (rangeClients F n d ks h) = enqueued h"
  "received (rangeClients F n d ks h) = received h"
  by (induction ks arbitrary: h; simp add: Let_def leave_def close_def)+

lemma rangeClients_clients:
  "clients (rangeClients F n d ks h) c = (if c \<in> set ks \<and> F c then None else clients h c)"
  by (induction ks arbitrary: h) (auto simp: Let_def leave_def close_def)

lemma rangeClients_closed:
  "closed (rangeClients F n d ks h) = closed h \<union> {c \<in> set ks. F c \<and> clients h c \<noteq> None}"
  by (induction ks arbitrary: h) (auto simp: Let_def leave_def close_def)

lemma rangeClients_written:
  "distinct ks \<Longrightarrow> set ks \<subseteq> dom (clients h) \<Longrightarrow>
   written (rangeClients F n d ks h) = written h @ map (\<lambda>c. (n, c, d)) ks"
proof (induction ks arbitrary: h)
  case Nil
  then show ?case by simp
next
  case (Cons k ks)
  then have k: "clients h k \<noteq> None" and d: "distinct ks" and nk: "k \<notin> set ks"
    and sub: "set ks \<subseteq> dom (clients h)" by auto
  let ?h1 = "h\<lparr>written := written h @ [(n, k, d)]\<rparr>"
  show ?case
  proof (cases "F k")
    case True
    have "set ks \<subseteq> dom (clients (leave k (close k ?h1)))"
      using sub nk by (auto simp: leave_def close_def)
    from Cons.IH [OF d this] show ?thesis
      using k True by (auto simp: Let_def leave_def close_def)
  next
    case False
    have "set ks \<subseteq> dom (clients ?h1)" using sub by simp
    from Cons.IH [OF d this] show ?thesis
      using k False by (auto simp: Let_def)
  qed
qed

lemma filter_eq_distinct:
  "distinct ks \<Longrightarrow> filter (\<lambda>k. k = c) ks = (if c \<in> set ks then [c] else [])"
  by (induction ks) auto

lemma attempts_append:
  "distinct ks \<Longrightarrow>
   map fst (filter (\<lambda>e. fst (snd e) = c) (ws @ map (\<lambda>k. (n, k, d)) ks)) =
   map fst (filter (\<lambda>e. fst (snd e) = c) ws) @ (if c \<in> set ks then [n] else [])"
  by (simp add: filter_map comp_def filter_eq_distinct)

lemma deliver_fields:
  "broadcast (deliver W M ks m h) = broadcast h"
  "msg (deliver W M ks m h) = msg h"
  "upgraded (deliver W M ks m h) = upgraded h"
  "enqueued (deliver W M ks m h) = enqueued h"
  "received (deliver W M ks m h) = received h"
  by (simp_all add: deliver_def rangeClients_fields split: option.splits)

lemma deliver_unserialisable: "M m = None \<Longrightarrow> deliver W M ks m h = h"
  by (simp add: deliver_def)

lemma deliver_clients:
  "M m = Some d \<Longrightarrow>
   clients (deliver W M ks m h) c =
     (if c \<in> set ks \<and> W (received h) c then None else clients h c)"
  by (simp add: deliver_def rangeClients_clients)

lemma deliver_closed:
  "M m = Some d \<Longrightarrow>
   closed (deliver W M ks m h) =
     closed h \<union> {c \<in> set ks. W (received h) c \<and> clients h c \<noteq> None}"
  by (simp add: deliver_def rangeClients_closed)

lemma deliver_written:
  "M m = Some d \<Longrightarrow> distinct ks \<Longrightarrow> set ks = dom (clients h) \<Longrightarrow>
   written (deliver W M ks m h) = written h @ map (\<lambda>c. (received h, c, d)) ks"
  by (simp add: deliver_def rangeClients_written)

lemma deliver_dom: "dom (clients (deliver W M ks m h)) \<subseteq> dom (clients h)"
  by (cases "M m") (auto simp: deliver_unserialisable deliver_clients split: if_splits)

lemma deliver_attempts:
  assumes "M m = Some d" and dist: "distinct ks" and ks: "set ks = dom (clients h)"
  shows "attempts c (deliver W M ks m h) =
     attempts c h @ (if clients h c \<noteq> None then [received h] else [])"
proof -
  have w: "written (deliver W M ks m h) = written h @ map (\<lambda>c. (received h, c, d)) ks"
    using assms by (rule deliver_written)
  have "c \<in> set ks \<longleftrightarrow> clients h c \<noteq> None"
    using ks by (auto simp: dom_def)
  then show ?thesis
    unfolding attempts_def w
    using attempts_append [OF dist, of c "written h" "received h" d] by simp
qed

lemma attempts_written_eq: "written h' = written h \<Longrightarrow> attempts c h' = attempts c h"
  by (simp add: attempts_def)

lemma attempts_bound:
  "\<forall>e \<in> set (written h). fst e < n \<and> P e \<Longrightarrow> \<forall>i \<in> set (attempts c h). i < n"
  by (auto simp: attempts_def)

lemma hub_inv_hub0: "hub_inv M hub0"
  by (simp add: hub_inv_def hub0_def attempts_def)

lemma step_inv:
  assumes inv: "hub_inv M h" and st: "step W M a h = Some h'"
  shows "hub_inv M h'"
proof (cases a)
  case (Join c u)
  with st have h': "h' = join c u h" by (simp split: if_splits)
  have "\<And>c'. attempts c' h' = attempts c' h"
    by (rule attempts_written_eq) (simp add: h' join_def)
  with inv show ?thesis
    by (auto simp: hub_inv_def h' join_def)
next
  case (Send m)
  with st have h': "h' = send m h" by simp
  have a: "\<And>c'. attempts c' h' = attempts c' h"
    by (rule attempts_written_eq) (simp add: h' send_def)
  from inv have le: "received h \<le> length (enqueued h)" by (simp add: hub_inv_def)
  with inv a show ?thesis
    by (auto simp: hub_inv_def h' send_def nth_append)
next
  case (Leave c)
  with st have h': "h' = leave c h" by simp
  have "\<And>c'. attempts c' h' = attempts c' h"
    by (rule attempts_written_eq) (simp add: h' leave_def)
  with inv show ?thesis
    by (auto simp: hub_inv_def h' leave_def)
next
  case (Close c)
  with st have h': "h' = close c h" by simp
  have "\<And>c'. attempts c' h' = attempts c' h"
    by (rule attempts_written_eq) (simp add: h' close_def)
  with inv show ?thesis
    by (auto simp: hub_inv_def h' close_def)
next
  case Receive
  with st obtain m q where idle: "msg h = None" and q: "broadcast h = m # q"
    and h': "h' = h\<lparr>broadcast := q, msg := Some m\<rparr>"
    by (auto split: option.splits list.splits)
  have "\<And>c'. attempts c' h' = attempts c' h"
    by (rule attempts_written_eq) (simp add: h')
  with inv idle q show ?thesis
    by (auto simp: hub_inv_def h')
next
  case (Deliver ks)
  with st obtain m where m: "msg h = Some m" and dist: "distinct ks"
    and ks: "set ks = dom (clients h)"
    and h': "h' = (deliver W M ks m h)\<lparr>msg := None, received := Suc (received h)\<rparr>"
    by (auto split: option.splits if_splits)
  let ?n = "received h"
  from inv m have dr: "drop ?n (enqueued h) = m # broadcast h"
    and wr: "\<forall>e \<in> set (written h). fst e < ?n \<and> M (enqueued h ! fst e) = Some (snd (snd e))"
    and so: "\<And>c. sorted_wrt (<) (attempts c h)"
    and up: "dom (clients h) \<subseteq> upgraded h"
    by (simp_all add: hub_inv_def)
  from dr have lt: "?n < length (enqueued h)"
    by (metis drop_all list.distinct(1) not_le)
  from dr have nth: "enqueued h ! ?n = m" by (rule nth_via_drop)
  from lt have "enqueued h ! ?n # drop (Suc ?n) (enqueued h) = drop ?n (enqueued h)"
    by (rule Cons_nth_drop_Suc)
  with dr have dr': "drop (Suc ?n) (enqueued h) = broadcast h" by simp
  have i1: "dom (clients h') \<subseteq> upgraded h'"
    using deliver_dom [of W M ks m h] up by (auto simp: h' deliver_fields)
  have i2: "drop (received h') (enqueued h') =
      (case msg h' of None \<Rightarrow> [] | Some m \<Rightarrow> [m]) @ broadcast h'"
    using dr' by (simp add: h' deliver_fields)
  have i3: "received h' \<le> length (enqueued h')"
    using lt by (simp add: h' deliver_fields)
  have i4: "\<forall>e \<in> set (written h').
      fst e < received h' \<and> M (enqueued h' ! fst e) = Some (snd (snd e))"
  proof (cases "M m")
    case None
    with wr show ?thesis
      by (auto simp: h' deliver_unserialisable less_Suc_eq)
  next
    case (Some d)
    have "written (deliver W M ks m h) = written h @ map (\<lambda>c. (?n, c, d)) ks"
      using Some dist ks by (rule deliver_written)
    with wr nth Some show ?thesis
      by (auto simp: h' deliver_fields less_Suc_eq)
  qed
  have i5: "sorted_wrt (<) (attempts c h')" for c
  proof (cases "M m")
    case None
    then have "attempts c h' = attempts c h"
      by (simp add: attempts_def h' deliver_unserialisable)
    with so show ?thesis by simp
  next
    case (Some d)
    have "attempts c h' = attempts c (deliver W M ks m h)"
      by (simp add: attempts_def h')
    also have "\<dots> = attempts c h @ (if clients h c \<noteq> None then [?n] else [])"
      using Some dist ks by (rule deliver_attempts)
    finally have eq: "attempts c h' =
      attempts c h @ (if clients h c \<noteq> None then [?n] else [])" .
    from wr have "\<forall>i \<in> set (attempts c h). i < ?n" by (rule attempts_bound)
    with so [of c] show ?thesis
      unfolding eq by (auto simp: sorted_wrt_append)
  qed
  from i1 i2 i3 i4 i5 show ?thesis
    unfolding hub_inv_def by blast
qed

lemma run_inv: "hub_inv M h \<Longrightarrow> run W M acts h = Some h' \<Longrightarrow> hub_inv M h'"
proof (induction acts arbitrary: h)
  case Nil
  then show ?case by simp
next
  case (Cons a acts)
  then obtain h1 where "step W M a h = Some h1" and "run W M acts h1 = Some h'"
    by (auto split: option.splits)
  with Cons.IH Cons.prems(1) show ?case
    by (blast intro: step_inv)
qed

lemma run_append:
  "run W M (as @ bs) h = (case run W M as h of None \<Rightarrow> None | Some h1 \<Rightarrow> run W M bs h1)"
  by (induction as arbitrary: h) (simp_all split: option.splits)

lemma reachable_inv: "run W M acts hub0 = Some h \<Longrightarrow> hub_inv M h"
  using hub_inv_hub0 by (rule run_inv)

lemma Deliver_step:
  assumes "step W M (Deliver ks) h = Some h'"
  shows "\<exists>m. msg h = Some m" and "distinct ks" and "set ks = dom (clients h)"
    and "h' = (deliver W M ks (the (msg h)) h)\<lparr>msg := None, received := Suc (received h)\<rparr>"
  using assms by (auto split: option.splits if_splits)

lemma Deliver_attempts:
  assumes st: "step W M (Deliver ks) h = Some h'" and m: "msg h = Some m" and d: "M m = Some d"
  shows "attempts c h' = attempts c h @ (if clients h c \<noteq> None then [received h] else [])"
proof -
  from Deliver_step [OF st] m
  have dist: "distinct ks" and ks: "set ks = dom (clients h)"
    and h': "h' = (deliver W M ks m h)\<lparr>msg := None, received := Suc (received h)\<rparr>"
    by simp_all
  have "attempts c h' = attempts c (deliver W M ks m h)"
    by (simp add: attempts_def h')
  also have "\<dots> = attempts c h @ (if clients h c \<noteq> None then [received h] else [])"
    using d dist ks by (rule deliver_attempts)
  finally show ?thesis .
qed

lemma Deliver_unserialisable:
  assumes st: "step W M (Deliver ks) h = Some h'" and m: "msg h = Some m" and d: "M m = None"
  shows "written h' = written h" and "clients h' = clients h"
  using Deliver_step [OF st] m d by (simp_all add: deliver_unserialisable)

lemma step_gone:
  assumes "c \<in> upgraded h" and "clients h c = None" and "step W M a h = Some h'"
  shows "c \<in> upgraded h' \<and> clients h' c = None \<and> attempts c h' = attempts c h"
proof (cases a)
  case (Deliver ks)
  with assms(3) obtain m where m: "msg h = Some m"
    and h': "h' = (deliver W M ks m h)\<lparr>msg := None, received := Suc (received h)\<rparr>"
    by (auto split: option.splits if_splits)
  have st: "step W M (Deliver ks) h = Some h'" using assms(3) Deliver by simp
  have up: "c \<in> upgraded h'" using assms(1) by (simp add: h' deliver_fields)
  have cl: "clients h' c = None"
    using deliver_dom [of W M ks m h] assms(2) by (auto simp: h' dom_def)
  have "attempts c h' = attempts c h"
  proof (cases "M m")
    case None
    from Deliver_unserialisable(1) [OF st m None] show ?thesis
      by (rule attempts_written_eq)
  next
    case (Some d)
    from Deliver_attempts [OF st m Some, of c] assms(2) show ?thesis by simp
  qed
  with up cl show ?thesis by simp
qed (use assms in \<open>auto simp: join_def send_def leave_def close_def attempts_def
       split: option.splits list.splits if_splits\<close>)

lemma run_gone:
  "c \<in> upgraded h \<Longrightarrow> clients h c = None \<Longrightarrow> run W M acts h = Some h' \<Longrightarrow>
   c \<in> upgraded h' \<and> clients h' c = None \<and> attempts c h' = attempts c h"
proof (induction acts arbitrary: h)
  case Nil
  then show ?case by simp
next
  case (Cons a acts)
  then obtain h1 where s1: "step W M a h = Some h1" and r1: "run W M acts h1 = Some h'"
    by (auto split: option.splits)
  from step_gone [OF Cons.prems(1,2) s1]
  have g: "c \<in> upgraded h1" "clients h1 c = None" "attempts c h1 = attempts c h" by simp_all
  from Cons.IH [OF g(1,2) r1] g(3) show ?case by simp
qed

text \<open>
  C1, amended. In every state reachable by any sequence of joins, leaves, sends,
  receives and deliveries: when the dispatcher delivers the event it holds, every
  connection registered in the connection map at the moment it takes the lock for
  that event has delivery of the event attempted exactly once, and no other
  connection is attempted (an event that fails to serialise is attempted on none).
  The event the dispatcher holds is the next one in the order of the sends on the
  channel, what is written for an event is the serialisation of the message sent, and
  on every connection the attempted events come in strictly increasing order of
  their send: all recipients observe the events in the FIFO order of the channel.
\<close>

theorem dispatcher_fanout_order:
  assumes reach: "run W M acts hub0 = Some h"
  shows "sorted_wrt (<) (attempts c h)
    \<and> (\<forall>e \<in> set (written h).
          fst e < length (enqueued h) \<and> M (enqueued h ! fst e) = Some (snd (snd e)))
    \<and> (step W M (Deliver ks) h = Some h' \<and> msg h = Some m \<longrightarrow>
          m = enqueued h ! received h
          \<and> (M m = Some d \<longrightarrow>
               attempts c h' = attempts c h @ (if clients h c \<noteq> None then [received h] else [])
               \<and> count_list (attempts c h') (received h) = (if clients h c \<noteq> None then 1 else 0))
          \<and> (M m = None \<longrightarrow> written h' = written h))"
proof (intro conjI impI)
  from reach have inv: "hub_inv M h" by (rule reachable_inv)
  from inv show "sorted_wrt (<) (attempts c h)" by (simp add: hub_inv_def)
  from inv have wr: "\<forall>e \<in> set (written h).
      fst e < received h \<and> M (enqueued h ! fst e) = Some (snd (snd e))"
    and le: "received h \<le> length (enqueued h)"
    by (simp_all add: hub_inv_def)
  then show "\<forall>e \<in> set (written h).
      fst e < length (enqueued h) \<and> M (enqueued h ! fst e) = Some (snd (snd e))"
    by fastforce
  {
    assume a: "step W M (Deliver ks) h = Some h' \<and> msg h = Some m"
    from inv a have "drop (received h) (enqueued h) = m # broadcast h"
      by (simp add: hub_inv_def)
    then have "enqueued h ! received h = m" by (rule nth_via_drop)
    then show "m = enqueued h ! received h" by simp
    {
      assume d: "M m = Some d"
      from a have st: "step W M (Deliver ks) h = Some h'" and m: "msg h = Some m"
        by blast+
      from st m d show eq: "attempts c h' =
          attempts c h @ (if clients h c \<noteq> None then [received h] else [])"
        by (rule Deliver_attempts)
      from wr have "\<forall>i \<in> set (attempts c h). i < received h" by (rule attempts_bound)
      then have "received h \<notin> set (attempts c h)" by auto
      then have "count_list (attempts c h) (received h) = 0" by simp
      then show "count_list (attempts c h') (received h) = (if clients h c \<noteq> None then 1 else 0)"
        unfolding eq by simp
    }
    {
      assume n: "M m = None"
      from a have st: "step W M (Deliver ks) h = Some h'" and m: "msg h = Some m"
        by blast+
      from st m n show "written h' = written h" by (rule Deliver_unserialisable)
    }
  }
qed

text \<open>
  C2. When the write of the event in hand to a registered connection \<open>c\<close> fails, the
  dispatcher closes \<open>c\<close> and removes it from the connection map within the delivery
  step, which is the critical section of the mutex that the join and leave steps also
  use. The failure prevents no delivery attempt: for every connection, registered at
  dequeue time or later, the attempts are the same as under any other outcome of the
  writes, and every connection registered when the delivery runs is attempted once.
  The dispatcher is back at its receive, which takes the next message when there is
  one, and in every continuation \<open>c\<close> stays removed and is never attempted again.
\<close>

theorem write_failure_removes_connection:
  assumes reach: "run W M acts hub0 = Some h"
    and m: "msg h = Some m" and d: "M m = Some d"
    and st: "step W M (Deliver ks) h = Some h'"
    and c: "clients h c \<noteq> None" and fails: "W (received h) c"
    and later: "run W M acts' h' = Some h''"
  shows "c \<in> closed h' \<and> clients h' c = None
    \<and> attempts c' h' = attempts c' h @ (if clients h c' \<noteq> None then [received h] else [])
    \<and> (step W' M (Deliver ks) h = Some g \<longrightarrow> attempts c' g = attempts c' h')
    \<and> msg h' = None
    \<and> step W M Receive h' =
        (case broadcast h of [] \<Rightarrow> None | m' # q \<Rightarrow> Some (h'\<lparr>broadcast := q, msg := Some m'\<rparr>))
    \<and> clients h'' c = None \<and> attempts c h'' = attempts c h'"
proof -
  from reach have inv: "hub_inv M h" by (rule reachable_inv)
  from Deliver_step [OF st] m
  have dist: "distinct ks" and ks: "set ks = dom (clients h)"
    and h': "h' = (deliver W M ks m h)\<lparr>msg := None, received := Suc (received h)\<rparr>"
    by simp_all
  from c ks have cks: "c \<in> set ks" by (auto simp: dom_def)
  have "closed (deliver W M ks m h) =
      closed h \<union> {c \<in> set ks. W (received h) c \<and> clients h c \<noteq> None}"
    using d by (rule deliver_closed)
  then have closed: "c \<in> closed h'"
    using c cks fails by (simp add: h')
  have "clients (deliver W M ks m h) c =
      (if c \<in> set ks \<and> W (received h) c then None else clients h c)"
    using d by (rule deliver_clients)
  then have gone: "clients h' c = None"
    using cks fails by (simp add: h')
  have att: "attempts c' h' =
      attempts c' h @ (if clients h c' \<noteq> None then [received h] else [])"
    using st m d by (rule Deliver_attempts)
  have indep: "step W' M (Deliver ks) h = Some g \<longrightarrow> attempts c' g = attempts c' h'"
  proof
    assume "step W' M (Deliver ks) h = Some g"
    then have "attempts c' g =
        attempts c' h @ (if clients h c' \<noteq> None then [received h] else [])"
      using m d by (rule Deliver_attempts)
    with att show "attempts c' g = attempts c' h'" by simp
  qed
  have idle: "msg h' = None" by (simp add: h')
  have recv: "step W M Receive h' =
      (case broadcast h of [] \<Rightarrow> None | m' # q \<Rightarrow> Some (h'\<lparr>broadcast := q, msg := Some m'\<rparr>))"
    by (simp add: h' deliver_fields split: list.splits)
  from inv c have "c \<in> upgraded h" by (auto simp: hub_inv_def dom_def)
  then have up: "c \<in> upgraded h'" by (simp add: h' deliver_fields)
  from run_gone [OF up gone later]
  have "clients h'' c = None" and "attempts c h'' = attempts c h'" by simp_all
  with closed gone att indep idle recv show ?thesis by blast
qed

lemma dom_ex: "dom (Map.empty(7::nat \<mapsto> ''bob'', 9 \<mapsto> ''carol'')) = {9, 7}"
  "dom (Map.empty(7::nat \<mapsto> ''bob'')) = {7}"
  by auto

lemma run_sched_ex: "run never_fails Marshal_ex sched_ex hub0 = Some hub_ex"
  by (simp add: sched_ex_def hub0_def hub_ex_def join_def send_def deliver_def Let_def
        never_fails_def Marshal_ex_def joined_bob_def joined_carol_def chat_hi_def)

lemma run_sched_ex': "run fails_carol Marshal_ex sched_ex hub0 = Some hub_ex"
  by (simp add: sched_ex_def hub0_def hub_ex_def join_def send_def deliver_def Let_def
        fails_carol_def Marshal_ex_def joined_bob_def joined_carol_def chat_hi_def)

lemma step_hub_ex_done:
  "step never_fails Marshal_ex (Deliver [9, 7]) hub_ex = Some hub_ex_done"
  by (simp add: hub_ex_def hub_ex_done_def deliver_def Let_def
        never_fails_def Marshal_ex_def chat_hi_def insert_commute)

lemma step_hub_ex_failed:
  "step fails_carol Marshal_ex (Deliver [9, 7]) hub_ex = Some hub_ex_failed"
  by (simp add: hub_ex_def hub_ex_failed_def deliver_def Let_def leave_def close_def
        fails_carol_def Marshal_ex_def chat_hi_def insert_commute)

lemma run_hub_ex_left:
  "run never_fails Marshal_ex [Leave 9, Deliver [7]] hub_ex = Some hub_ex_left"
  by (simp add: hub_ex_def hub_ex_left_def deliver_def Let_def leave_def
        never_fails_def Marshal_ex_def chat_hi_def)

lemma hub_ex_simps:
  "clients hub_ex 9 = Some ''carol''" "clients hub_ex 7 = Some ''bob''"
  "msg hub_ex = Some chat_hi" "received hub_ex = 2"
  "enqueued hub_ex ! 2 = chat_hi" "broadcast hub_ex = []"
  "attempts 9 hub_ex = [1]" "attempts 7 hub_ex = [0, 1]"
  "Marshal_ex chat_hi = Some ''message:bob:hi''"
  by (simp_all add: hub_ex_def attempts_def Marshal_ex_def chat_hi_def)

text \<open>
  C1, as stated, fails: the dispatcher takes the mutex only after it has received and
  serialised the event, and a handler can run its \<^verbatim>\<open>delete(clients, conn)\<close> in
  between. In the schedule below \<open>carol\<close>'s connection (handle 9) is registered at the
  moment the dispatcher dequeues \<open>bob\<close>'s chat message (event 2); her handler then
  leaves, and the delivery of event 2 never attempts handle 9.
\<close>

theorem leave_between_dequeue_and_lock:
  "run never_fails Marshal_ex sched_ex hub0 = Some hub_ex
   \<and> clients hub_ex 9 = Some ''carol''
   \<and> msg hub_ex = Some chat_hi
   \<and> received hub_ex = 2
   \<and> run never_fails Marshal_ex [Leave 9, Deliver [7]] hub_ex = Some hub_ex_left
   \<and> received hub_ex_left = 3
   \<and> attempts 7 hub_ex_left = [0, 1, 2]
   \<and> attempts 9 hub_ex_left = [1]"
  by (simp add: run_sched_ex run_hub_ex_left hub_ex_simps del: run.simps step.simps)
     (simp add: hub_ex_left_def attempts_def)

theorem dispatcher_fanout_order_witness:
  "run never_fails Marshal_ex sched_ex hub0 = Some hub_ex
   \<and> sorted_wrt (<) (attempts 9 hub_ex)
   \<and> step never_fails Marshal_ex (Deliver [9, 7]) hub_ex = Some hub_ex_done
   \<and> msg hub_ex = Some chat_hi
   \<and> chat_hi = enqueued hub_ex ! received hub_ex
   \<and> Marshal_ex chat_hi = Some ''message:bob:hi''
   \<and> clients hub_ex 9 \<noteq> None
   \<and> attempts 9 hub_ex_done = [1, 2]
   \<and> count_list (attempts 9 hub_ex_done) 2 = 1"
  using dispatcher_fanout_order [OF run_sched_ex, of 9 "[9, 7]" hub_ex_done chat_hi
      "''message:bob:hi''"]
  by (simp add: run_sched_ex step_hub_ex_done hub_ex_simps del: step.simps)

lemma run_hub_ex_later:
  "run fails_carol Marshal_ex later_ex hub_ex_failed = Some hub_ex_later"
  by (simp add: later_ex_def hub_ex_failed_def hub_ex_later_def deliver_def Let_def send_def
        fails_carol_def Marshal_ex_def chat_hi_def joined_carol_def joined_bob_def)

theorem write_failure_removes_connection_witness:
  "run fails_carol Marshal_ex sched_ex hub0 = Some hub_ex
   \<and> msg hub_ex = Some chat_hi
   \<and> Marshal_ex chat_hi = Some ''message:bob:hi''
   \<and> step fails_carol Marshal_ex (Deliver [9, 7]) hub_ex = Some hub_ex_failed
   \<and> clients hub_ex 9 \<noteq> None
   \<and> fails_carol (received hub_ex) 9
   \<and> run fails_carol Marshal_ex later_ex hub_ex_failed = Some hub_ex_later
   \<and> 9 \<in> closed hub_ex_failed
   \<and> clients hub_ex_failed 9 = None
   \<and> attempts 7 hub_ex_failed = [0, 1, 2]
   \<and> step never_fails Marshal_ex (Deliver [9, 7]) hub_ex = Some hub_ex_done
   \<and> attempts 7 hub_ex_done = attempts 7 hub_ex_failed
   \<and> msg hub_ex_failed = None
   \<and> clients hub_ex_later 9 = None
   \<and> attempts 9 hub_ex_later = [1, 2]"
proof -
  have f: "fails_carol (received hub_ex) 9"
    by (simp add: fails_carol_def hub_ex_simps)
  have c: "clients hub_ex 9 \<noteq> None" by (simp add: hub_ex_simps)
  note T = write_failure_removes_connection [OF run_sched_ex' hub_ex_simps(3) hub_ex_simps(9)
      step_hub_ex_failed c f run_hub_ex_later, of 7 never_fails hub_ex_done]
  have a2: "attempts 9 hub_ex_failed = [1, 2]"
    by (simp add: hub_ex_failed_def attempts_def)
  from T a2 show ?thesis
    by (simp add: run_sched_ex' step_hub_ex_failed step_hub_ex_done run_hub_ex_later
        hub_ex_simps fails_carol_def del: step.simps run.simps)
qed

section \<open>Read loop: properties\<close>

lemma readLoop_fields:
  "clients (fst (readLoop U u fs h)) = clients h"
  "msg (fst (readLoop U u fs h)) = msg h"
  "upgraded (fst (readLoop U u fs h)) = upgraded h"
  "closed (fst (readLoop U u fs h)) = closed h"
  "written (fst (readLoop U u fs h)) = written h"
  "received (fst (readLoop U u fs h)) = received h"
  by (induction U u fs h rule: readLoop.induct; simp add: send_def split: option.splits)+

lemma readLoop_left: "snd (readLoop U u fs h) = (ReadError \<in> set fs)"
  by (induction U u fs h rule: readLoop.induct) (auto split: option.splits)

lemma readLoop_sends:
  "\<exists>ms. enqueued (fst (readLoop U u fs h)) = enqueued h @ ms
        \<and> broadcast (fst (readLoop U u fs h)) = broadcast h @ ms
        \<and> (\<forall>e \<in> set ms. Username e = u)"
proof (induction U u fs h rule: readLoop.induct)
  case (3 U u p fs h)
  show ?case
  proof (cases "U p")
    case None
    with 3(1) show ?thesis by simp
  next
    case (Some m)
    from 3(2) [OF Some] obtain ms where
      "enqueued (fst (readLoop U u fs (send (m\<lparr>Username := u\<rparr>) h))) =
         enqueued (send (m\<lparr>Username := u\<rparr>) h) @ ms"
      "broadcast (fst (readLoop U u fs (send (m\<lparr>Username := u\<rparr>) h))) =
         broadcast (send (m\<lparr>Username := u\<rparr>) h) @ ms"
      "\<forall>e \<in> set ms. Username e = u"
      by blast
    then have
      "enqueued (fst (readLoop U u (Payload p # fs) h)) = enqueued h @ (m\<lparr>Username := u\<rparr> # ms)
       \<and> broadcast (fst (readLoop U u (Payload p # fs) h)) =
           broadcast h @ (m\<lparr>Username := u\<rparr> # ms)
       \<and> (\<forall>e \<in> set (m\<lparr>Username := u\<rparr> # ms). Username e = u)"
      using Some by (simp add: send_def)
    then show ?thesis by blast
  qed
qed simp_all

lemma same_frame_step:
  assumes "same_frame U f f'"
  shows "(f = ReadError \<and> f' = ReadError)
    \<or> (\<exists>p p'. f = Payload p \<and> f' = Payload p' \<and> U p = None \<and> U p' = None)
    \<or> (\<exists>p p' m m'. f = Payload p \<and> f' = Payload p' \<and> U p = Some m \<and> U p' = Some m'
          \<and> m\<lparr>Username := u\<rparr> = m'\<lparr>Username := u\<rparr>)"
proof (cases f)
  case ReadError
  with assms show ?thesis by (cases f') simp_all
next
  case (Payload p)
  with assms obtain p' where f': "f' = Payload p'" by (cases f') simp_all
  show ?thesis
  proof (cases "U p")
    case None
    with assms Payload f' show ?thesis by (cases "U p'") simp_all
  next
    case (Some m)
    with assms Payload f' obtain m' where m': "U p' = Some m'"
      and eq: "Type m = Type m'" "Content m = Content m'"
      by (cases "U p'") simp_all
    from eq have "m\<lparr>Username := u\<rparr> = m'\<lparr>Username := u\<rparr>"
      by (cases m; cases m') simp
    with Payload f' Some m' show ?thesis by simp
  qed
qed

lemma readLoop_same:
  "list_all2 (same_frame U) fs fs' \<Longrightarrow> readLoop U u fs h = readLoop U u fs' h"
proof (induction fs fs' arbitrary: h rule: list_all2_induct)
  case Nil
  then show ?case by simp
next
  case (Cons f fs f' fs')
  from same_frame_step [OF Cons.hyps(1), of u] Cons.IH show ?case
    by auto
qed

lemma websocketHandler_same:
  "list_all2 (same_frame U) fs fs' \<Longrightarrow> websocketHandler U u c fs h = websocketHandler U u c fs' h"
  by (simp add: websocketHandler_def readLoop_same [of U fs fs'])

lemma websocketHandler_reading:
  assumes "ReadError \<notin> set fs"
  shows "websocketHandler U u c fs h =
    fst (readLoop U u fs
          (send \<lparr>Type = ''userJoined'', Username = u, Content = ''''\<rparr> (join c u h)))"
  using assms readLoop_left [of U u fs]
  by (simp add: websocketHandler_def Let_def case_prod_beta)

lemma websocketHandler_left:
  assumes "ReadError \<in> set fs"
  shows "websocketHandler U u c fs h =
    close c (send \<lparr>Type = ''userLeft'', Username = u, Content = ''''\<rparr>
      (leave c (fst (readLoop U u fs
          (send \<lparr>Type = ''userJoined'', Username = u, Content = ''''\<rparr> (join c u h))))))"
  using assms readLoop_left [of U u fs]
  by (simp add: websocketHandler_def Let_def case_prod_beta)

lemma enqueued_ops:
  "enqueued (send m h) = enqueued h @ [m]"
  "enqueued (join c u h) = enqueued h"
  "enqueued (leave c h) = enqueued h"
  "enqueued (close c h) = enqueued h"
  by (simp_all add: send_def join_def leave_def close_def)

lemma websocketHandler_sends:
  "\<exists>ms. enqueued (websocketHandler U u c fs h) = enqueued h @ ms
        \<and> (\<forall>e \<in> set ms. Username e = u)"
proof -
  let ?h2 = "send \<lparr>Type = ''userJoined'', Username = u, Content = ''''\<rparr> (join c u h)"
  obtain ms where ms: "enqueued (fst (readLoop U u fs ?h2)) = enqueued ?h2 @ ms"
    "\<forall>e \<in> set ms. Username e = u"
    using readLoop_sends [of U u fs ?h2] by blast
  have e2: "enqueued ?h2 = enqueued h @ [\<lparr>Type = ''userJoined'', Username = u, Content = ''''\<rparr>]"
    by (simp add: enqueued_ops)
  show ?thesis
  proof (cases "ReadError \<in> set fs")
    case True
    have "enqueued (websocketHandler U u c fs h) =
        enqueued h @ (\<lparr>Type = ''userJoined'', Username = u, Content = ''''\<rparr> # ms
          @ [\<lparr>Type = ''userLeft'', Username = u, Content = ''''\<rparr>])"
      by (simp add: websocketHandler_left [OF True] enqueued_ops ms(1) e2)
    moreover have "\<forall>e \<in> set (\<lparr>Type = ''userJoined'', Username = u, Content = ''''\<rparr> # ms
          @ [\<lparr>Type = ''userLeft'', Username = u, Content = ''''\<rparr>]). Username e = u"
      using ms(2) by auto
    ultimately show ?thesis by blast
  next
    case False
    have "enqueued (websocketHandler U u c fs h) =
        enqueued h @ (\<lparr>Type = ''userJoined'', Username = u, Content = ''''\<rparr> # ms)"
      by (simp add: websocketHandler_reading [OF False] ms(1) e2)
    moreover have "\<forall>e \<in> set (\<lparr>Type = ''userJoined'', Username = u, Content = ''''\<rparr> # ms).
        Username e = u"
      using ms(2) by auto
    ultimately show ?thesis by blast
  qed
qed

text \<open>
  C4. For every frame the read loop accepts, the message sent on the broadcast channel is
  the decoded message with its user name replaced by \<open>username\<close>, the identity the
  handler registered for the connection when it joined. Every message the handler
  sends carries that name. Two payloads that decode to messages differing only in the
  client-supplied user name produce the same event, and two sequences of frames that
  differ only so leave the same hub state.
\<close>

theorem username_overwritten:
  "(U p = Some m \<longrightarrow>
      readLoop U u (Payload p # fs) h = readLoop U u fs (send (m\<lparr>Username := u\<rparr>) h))
   \<and> clients (join c u h) c = Some u
   \<and> take (length (enqueued h)) (enqueued (websocketHandler U u c fs h)) = enqueued h
   \<and> (\<forall>e \<in> set (drop (length (enqueued h)) (enqueued (websocketHandler U u c fs h))).
         Username e = u)
   \<and> (U p = Some m \<and> U p' = Some m' \<and> Type m = Type m' \<and> Content m = Content m' \<longrightarrow>
         readLoop U u [Payload p] h = (send (m\<lparr>Username := u\<rparr>) h, False)
         \<and> readLoop U u [Payload p'] h = readLoop U u [Payload p] h)
   \<and> (list_all2 (same_frame U) fs fs' \<longrightarrow>
         websocketHandler U u c fs h = websocketHandler U u c fs' h)"
proof -
  obtain ms where ms: "enqueued (websocketHandler U u c fs h) = enqueued h @ ms"
    "\<forall>e \<in> set ms. Username e = u"
    using websocketHandler_sends [of U u c fs h] by blast
  have two: "readLoop U u [Payload p'] h = readLoop U u [Payload p] h"
    if "U p = Some m" "U p' = Some m'" "Type m = Type m'" "Content m = Content m'"
  proof -
    from that(3,4) have "m\<lparr>Username := u\<rparr> = m'\<lparr>Username := u\<rparr>"
      by (cases m; cases m') simp
    with that(1,2) show ?thesis by simp
  qed
  show ?thesis
    using ms two by (auto simp: join_def websocketHandler_same)
qed

lemma Unmarshal_ex_simps:
  "Unmarshal_ex ''hi as bob'' = Some \<lparr>Type = ''message'', Username = ''bob'', Content = ''hi''\<rparr>"
  "Unmarshal_ex ''hi as carol'' =
     Some \<lparr>Type = ''message'', Username = ''carol'', Content = ''hi''\<rparr>"
  "Unmarshal_ex ''carol left'' = Some \<lparr>Type = ''userLeft'', Username = ''carol'', Content = ''''\<rparr>"
  "Unmarshal_ex ''{'' = None"
  by (simp_all add: Unmarshal_ex_def)

theorem username_overwritten_witness:
  "Unmarshal_ex ''hi as bob'' = Some \<lparr>Type = ''message'', Username = ''bob'', Content = ''hi''\<rparr>
   \<and> Unmarshal_ex ''hi as carol'' =
        Some \<lparr>Type = ''message'', Username = ''carol'', Content = ''hi''\<rparr>
   \<and> readLoop Unmarshal_ex ''bob'' [Payload ''hi as carol''] hub0 = (send chat_hi hub0, False)
   \<and> readLoop Unmarshal_ex ''bob'' [Payload ''hi as bob''] hub0 =
        readLoop Unmarshal_ex ''bob'' [Payload ''hi as carol''] hub0
   \<and> list_all2 (same_frame Unmarshal_ex) [Payload ''hi as carol'', ReadError]
        [Payload ''hi as bob'', ReadError]
   \<and> websocketHandler Unmarshal_ex ''bob'' 7 [Payload ''hi as carol'', ReadError] hub0 =
        websocketHandler Unmarshal_ex ''bob'' 7 [Payload ''hi as bob'', ReadError] hub0"
proof -
  have l: "list_all2 (same_frame Unmarshal_ex) [Payload ''hi as carol'', ReadError]
      [Payload ''hi as bob'', ReadError]"
    by (simp add: Unmarshal_ex_simps)
  from username_overwritten [of Unmarshal_ex "''hi as carol''"
      "\<lparr>Type = ''message'', Username = ''carol'', Content = ''hi''\<rparr>" "''bob''"
      "[Payload ''hi as carol'', ReadError]" hub0 7 "''hi as bob''"
      "\<lparr>Type = ''message'', Username = ''bob'', Content = ''hi''\<rparr>"
      "[Payload ''hi as bob'', ReadError]"] l
  show ?thesis
    by (simp add: Unmarshal_ex_simps chat_hi_def del: readLoop.simps list_all2_Cons)
qed

text \<open>
  C9. The read loop forwards the client-supplied type unchanged: a payload that decodes
  to a message of any type, \<open>userJoined\<close> and \<open>userLeft\<close> included, is sent on the
  channel with that type and the sender's authenticated name, and the connection map
  is not touched. When the dispatcher then receives and delivers it, the serialised
  event is written to every registered connection, and a connection stays registered
  unless the write to it fails.
\<close>

theorem client_type_forwarded:
  "(U p = Some m \<longrightarrow>
      readLoop U u [Payload p] h = (send (m\<lparr>Username := u\<rparr>) h, False)
      \<and> Type (m\<lparr>Username := u\<rparr>) = Type m
      \<and> Username (m\<lparr>Username := u\<rparr>) = u
      \<and> clients (fst (readLoop U u [Payload p] h)) = clients h)
   \<and> (U p = Some m \<and> broadcast h = [] \<and> msg h = None \<and> M (m\<lparr>Username := u\<rparr>) = Some d
        \<and> distinct ks \<and> set ks = dom (clients h) \<longrightarrow>
      map_option written (run W M [Receive, Deliver ks] (fst (readLoop U u [Payload p] h))) =
        Some (written h @ map (\<lambda>k. (received h, k, d)) ks)
      \<and> map_option (\<lambda>g. clients g c)
          (run W M [Receive, Deliver ks] (fst (readLoop U u [Payload p] h))) =
        Some (if W (received h) c then None else clients h c))"
proof (intro conjI impI)
  assume "U p = Some m"
  then show "readLoop U u [Payload p] h = (send (m\<lparr>Username := u\<rparr>) h, False)"
    and "clients (fst (readLoop U u [Payload p] h)) = clients h"
    by (simp_all add: send_def)
  show "Type (m\<lparr>Username := u\<rparr>) = Type m" and "Username (m\<lparr>Username := u\<rparr>) = u"
    by simp_all
next
  assume a: "U p = Some m \<and> broadcast h = [] \<and> msg h = None \<and> M (m\<lparr>Username := u\<rparr>) = Some d
      \<and> distinct ks \<and> set ks = dom (clients h)"
  let ?e = "m\<lparr>Username := u\<rparr>"
  let ?h1 = "send ?e h"
  let ?h2 = "?h1\<lparr>broadcast := [], msg := Some ?e\<rparr>"
  from a have rl: "fst (readLoop U u [Payload p] h) = ?h1" by simp
  from a have r: "step W M Receive ?h1 = Some ?h2" by (simp add: send_def)
  from a have dist: "distinct ks" and ks: "set ks = dom (clients ?h2)" and d: "M ?e = Some d"
    by (simp_all add: send_def)
  have dl: "step W M (Deliver ks) ?h2 =
      Some ((deliver W M ks ?e ?h2)\<lparr>msg := None, received := Suc (received ?h2)\<rparr>)"
    using dist ks by simp
  have run: "run W M [Receive, Deliver ks] (fst (readLoop U u [Payload p] h)) =
      Some ((deliver W M ks ?e ?h2)\<lparr>msg := None, received := Suc (received ?h2)\<rparr>)"
    unfolding rl using r dl by (simp del: step.simps)
  have w: "written (deliver W M ks ?e ?h2) = written ?h2 @ map (\<lambda>c. (received ?h2, c, d)) ks"
    using d dist ks by (rule deliver_written)
  have cl: "clients (deliver W M ks ?e ?h2) c =
      (if c \<in> set ks \<and> W (received ?h2) c then None else clients ?h2 c)"
    using d by (rule deliver_clients)
  show "map_option written (run W M [Receive, Deliver ks] (fst (readLoop U u [Payload p] h))) =
      Some (written h @ map (\<lambda>k. (received h, k, d)) ks)"
    unfolding run using w by (simp add: send_def)
  show "map_option (\<lambda>g. clients g c)
        (run W M [Receive, Deliver ks] (fst (readLoop U u [Payload p] h))) =
      Some (if W (received h) c then None else clients h c)"
    unfolding run using cl a by (auto simp: send_def dom_def)
qed

text \<open>
  C10. A frame whose payload fails to parse is dropped: the loop goes on with the
  following frames from the same state, so nothing is sent on the channel and the
  connection stays registered. The loop is left exactly when a read returns an error.
  Without a read error the handler is still in its loop and the connection is
  registered under its user name; after a read error the connection is removed, the
  last message sent is the \<open>userLeft\<close> event of the user, and the handle is closed.
\<close>

theorem unparsable_frame_dropped:
  "(U p = None \<longrightarrow>
      readLoop U u (Payload p # fs) h = readLoop U u fs h
      \<and> readLoop U u [Payload p] h = (h, False))
   \<and> snd (readLoop U u fs h) = (ReadError \<in> set fs)
   \<and> clients (fst (readLoop U u fs h)) = clients h
   \<and> (ReadError \<notin> set fs \<longrightarrow>
        websocketHandler U u c fs h =
          fst (readLoop U u fs
                (send \<lparr>Type = ''userJoined'', Username = u, Content = ''''\<rparr> (join c u h)))
        \<and> clients (websocketHandler U u c fs h) c = Some u)
   \<and> (ReadError \<in> set fs \<longrightarrow>
        clients (websocketHandler U u c fs h) c = None
        \<and> last (enqueued (websocketHandler U u c fs h)) =
            \<lparr>Type = ''userLeft'', Username = u, Content = ''''\<rparr>
        \<and> c \<in> closed (websocketHandler U u c fs h))"
proof (intro conjI impI)
  assume "U p = None"
  then show "readLoop U u (Payload p # fs) h = readLoop U u fs h"
    and "readLoop U u [Payload p] h = (h, False)"
    by simp_all
next
  show "snd (readLoop U u fs h) = (ReadError \<in> set fs)" by (rule readLoop_left)
  show "clients (fst (readLoop U u fs h)) = clients h" by (rule readLoop_fields)
next
  assume n: "ReadError \<notin> set fs"
  then show "websocketHandler U u c fs h =
      fst (readLoop U u fs
            (send \<lparr>Type = ''userJoined'', Username = u, Content = ''''\<rparr> (join c u h)))"
    by (rule websocketHandler_reading)
  then show "clients (websocketHandler U u c fs h) c = Some u"
    by (simp add: readLoop_fields send_def join_def)
next
  assume e: "ReadError \<in> set fs"
  note wl = websocketHandler_left [OF e, of U u c h]
  show "clients (websocketHandler U u c fs h) c = None"
    unfolding wl by (simp add: close_def send_def leave_def)
  show "last (enqueued (websocketHandler U u c fs h)) =
      \<lparr>Type = ''userLeft'', Username = u, Content = ''''\<rparr>"
    unfolding wl by (simp add: enqueued_ops)
  show "c \<in> closed (websocketHandler U u c fs h)"
    unfolding wl by (simp add: close_def)
qed

lemma hub_ex_done_simps:
  "broadcast hub_ex_done = []" "msg hub_ex_done = None" "received hub_ex_done = 3"
  "clients hub_ex_done 7 = Some ''bob''"
  "set [9, 7] = dom (clients hub_ex_done)"
  "written hub_ex_done @ map (\<lambda>k. (3, k, ''userLeft:bob:'')) [9, 7] =
     [(0, 7, ''userJoined:bob:''), (1, 9, ''userJoined:carol:''), (1, 7, ''userJoined:carol:''),
      (2, 9, ''message:bob:hi''), (2, 7, ''message:bob:hi''),
      (3, 9, ''userLeft:bob:''), (3, 7, ''userLeft:bob:'')]"
  by (simp_all add: hub_ex_done_def dom_ex)

lemma forged_left_simps:
  "Unmarshal_ex ''carol left'' = Some forged_left"
  "Marshal_ex (forged_left\<lparr>Username := ''bob''\<rparr>) = Some ''userLeft:bob:''"
  "Type forged_left = ''userLeft''"
  by (simp_all add: forged_left_def Unmarshal_ex_def Marshal_ex_def)

theorem client_type_forwarded_witness:
  "Unmarshal_ex ''carol left'' = Some forged_left
   \<and> Type forged_left = ''userLeft''
   \<and> readLoop Unmarshal_ex ''bob'' [Payload ''carol left''] hub_ex_done =
        (send (forged_left\<lparr>Username := ''bob''\<rparr>) hub_ex_done, False)
   \<and> Type (forged_left\<lparr>Username := ''bob''\<rparr>) = ''userLeft''
   \<and> Username (forged_left\<lparr>Username := ''bob''\<rparr>) = ''bob''
   \<and> clients (fst (readLoop Unmarshal_ex ''bob'' [Payload ''carol left''] hub_ex_done)) =
        clients hub_ex_done
   \<and> broadcast hub_ex_done = [] \<and> msg hub_ex_done = None
   \<and> Marshal_ex (forged_left\<lparr>Username := ''bob''\<rparr>) = Some ''userLeft:bob:''
   \<and> distinct [9, 7 :: nat] \<and> set [9, 7] = dom (clients hub_ex_done)
   \<and> map_option written
        (run never_fails Marshal_ex [Receive, Deliver [9, 7]]
          (fst (readLoop Unmarshal_ex ''bob'' [Payload ''carol left''] hub_ex_done))) =
      Some [(0, 7, ''userJoined:bob:''), (1, 9, ''userJoined:carol:''),
            (1, 7, ''userJoined:carol:''), (2, 9, ''message:bob:hi''), (2, 7, ''message:bob:hi''),
            (3, 9, ''userLeft:bob:''), (3, 7, ''userLeft:bob:'')]"
proof -
  note T = client_type_forwarded [of Unmarshal_ex "''carol left''" forged_left "''bob''"
      hub_ex_done Marshal_ex "''userLeft:bob:''" "[9, 7]" never_fails 7]
  have d: "distinct [9, 7 :: nat]" by simp
  from T forged_left_simps(1)
  have A: "readLoop Unmarshal_ex ''bob'' [Payload ''carol left''] hub_ex_done =
        (send (forged_left\<lparr>Username := ''bob''\<rparr>) hub_ex_done, False)"
    and B: "Type (forged_left\<lparr>Username := ''bob''\<rparr>) = Type forged_left"
    and C: "Username (forged_left\<lparr>Username := ''bob''\<rparr>) = ''bob''"
    and D: "clients (fst (readLoop Unmarshal_ex ''bob'' [Payload ''carol left''] hub_ex_done)) =
        clients hub_ex_done"
    by blast+
  from T forged_left_simps(1,2) hub_ex_done_simps(1,2,5) d
  have "map_option written
        (run never_fails Marshal_ex [Receive, Deliver [9, 7]]
          (fst (readLoop Unmarshal_ex ''bob'' [Payload ''carol left''] hub_ex_done))) =
      Some (written hub_ex_done @ map (\<lambda>k. (received hub_ex_done, k, ''userLeft:bob:'')) [9, 7])"
    by blast
  then have E: "map_option written
        (run never_fails Marshal_ex [Receive, Deliver [9, 7]]
          (fst (readLoop Unmarshal_ex ''bob'' [Payload ''carol left''] hub_ex_done))) =
      Some [(0, 7, ''userJoined:bob:''), (1, 9, ''userJoined:carol:''),
            (1, 7, ''userJoined:carol:''), (2, 9, ''message:bob:hi''), (2, 7, ''message:bob:hi''),
            (3, 9, ''userLeft:bob:''), (3, 7, ''userLeft:bob:'')]"
    unfolding hub_ex_done_simps(3) hub_ex_done_simps(6) .
  from B have B': "Type (forged_left\<lparr>Username := ''bob''\<rparr>) = ''userLeft''"
    unfolding forged_left_simps(3) .
  from A B' C D E forged_left_simps hub_ex_done_simps(1,2,5) d show ?thesis
    by blast
qed

theorem unparsable_frame_dropped_witness:
  "Unmarshal_ex ''{'' = None
   \<and> readLoop Unmarshal_ex ''bob'' [Payload ''{''] hub0 = (hub0, False)
   \<and> readLoop Unmarshal_ex ''bob'' [Payload ''{'', Payload ''hi as bob''] hub0 =
        readLoop Unmarshal_ex ''bob'' [Payload ''hi as bob''] hub0
   \<and> ReadError \<notin> set [Payload ''hi as bob'']
   \<and> clients (websocketHandler Unmarshal_ex ''bob'' 7 [Payload ''hi as bob''] hub0) 7 =
        Some ''bob''
   \<and> ReadError \<in> set [ReadError]
   \<and> clients (websocketHandler Unmarshal_ex ''bob'' 7 [ReadError] hub0) 7 = None
   \<and> last (enqueued (websocketHandler Unmarshal_ex ''bob'' 7 [ReadError] hub0)) =
        \<lparr>Type = ''userLeft'', Username = ''bob'', Content = ''''\<rparr>"
proof -
  note T1 = unparsable_frame_dropped [of Unmarshal_ex "''{''" "''bob''"
      "[Payload ''hi as bob'']" hub0 7]
  note T2 = unparsable_frame_dropped [of Unmarshal_ex "''{''" "''bob''" "[ReadError]" hub0 7]
  have n: "Unmarshal_ex ''{'' = None" by (simp add: Unmarshal_ex_def)
  have r1: "ReadError \<notin> set [Payload ''hi as bob'']" by simp
  have r2: "ReadError \<in> set [ReadError]" by simp
  from T1 T2 n r1 r2 show ?thesis by blast
qed

end
